theory Spec2Isabelle
  imports Complex_Main "HOL-Library.Monad_Syntax"
begin

section \<open>Grid model (types.ts)\<close>

text \<open>
  \<^verbatim>\<open>CellValue = number | null\<close> is \<open>int option\<close> (\<open>None\<close> is \<open>null\<close>; numbers are
  modelled as integers), a \<^verbatim>\<open>SudokuGrid = CellValue[][]\<close> is a list of rows.
  A function of the source that mutates its grid argument returns the grid's final
  contents next to its result.

  A result of type \<open>'a option\<close> is \<open>None\<close> where the source does not return normally:
  it throws (the \<^verbatim>\<open>Error\<close> of \<open>getBoxDimensions\<close>, a \<^verbatim>\<open>TypeError\<close> from indexing
  \<^verbatim>\<open>undefined\<close>), or an \<^verbatim>\<open>undefined\<close> would be stored where the declared type has
  none. Each \<open>None\<close> below says which.
\<close>

type_synonym cell = "int option"
type_synonym row = "cell list"
type_synonym grid = "row list"

datatype Difficulty = Beginner | Easy | Medium | Hard | Expert

text \<open>What the expression \<^verbatim>\<open>grid[r][c]\<close> evaluates to; reading past the end of a row
  gives \<^verbatim>\<open>undefined\<close>, which is neither \<^verbatim>\<open>null\<close> nor equal to any number.\<close>

datatype jsval = Undefined | Null | Num int

definition readCell :: "grid \<Rightarrow> nat \<Rightarrow> nat \<Rightarrow> jsval" where
  "readCell g r c =
     (if r < length g \<and> c < length (g ! r)
      then (case g ! r ! c of None \<Rightarrow> Null | Some v \<Rightarrow> Num v)
      else Undefined)"

text \<open>The same with \<^verbatim>\<open>number\<close> indices: a negative index names no element.\<close>

definition readCellI :: "grid \<Rightarrow> int \<Rightarrow> int \<Rightarrow> jsval" where
  "readCellI g r c = (if 0 \<le> r \<and> 0 \<le> c then readCell g (nat r) (nat c) else Undefined)"

text \<open>The assignment \<^verbatim>\<open>grid[row][col] = v\<close>, for a cell inside the grid (every
  assignment of the solver is to a cell it has just read as \<^verbatim>\<open>null\<close>).\<close>

definition setCell :: "grid \<Rightarrow> nat \<Rightarrow> nat \<Rightarrow> cell \<Rightarrow> grid" where
  "setCell g r c v = g[r := (g ! r)[c := v]]"

section \<open>Validator (validator.ts)\<close>

text \<open>\<open>getBoxDimensions\<close>: \<open>None\<close> is \<^verbatim>\<open>throw new Error(`Invalid grid size`)\<close>.\<close>

definition getBoxDimensions :: "nat \<Rightarrow> (nat \<times> nat) option" where
  "getBoxDimensions gridSize =
     (if gridSize = 4 then Some (2, 2)
      else if gridSize = 6 then Some (2, 3)
      else if gridSize = 9 then Some (3, 3)
      else None)"

text \<open>\<open>isValidMove\<close>: the three scans return \<open>false\<close> at the first other cell that
  holds \<open>val\<close>; the box dimensions are looked up only after the row and column scans.\<close>

definition isValidMove :: "grid \<Rightarrow> int \<Rightarrow> int \<Rightarrow> int \<Rightarrow> bool option" where
  "isValidMove g row col val =
     (let gridSize = length g in
      if row < 0 \<or> row \<ge> int gridSize \<or> col < 0 \<or> col \<ge> int gridSize then Some False
      else if val < 1 \<or> val > int gridSize then Some False
      else if list_ex (\<lambda>c. int c \<noteq> col \<and> readCell g (nat row) c = Num val) [0..<gridSize]
        then Some False
      else if list_ex (\<lambda>r. int r \<noteq> row \<and> readCell g r (nat col) = Num val) [0..<gridSize]
        then Some False
      else do {
        (rows, cols) \<leftarrow> getBoxDimensions gridSize;
        let boxRow = (nat row div rows) * rows;
        let boxCol = (nat col div cols) * cols;
        Some (\<not> list_ex (\<lambda>r. list_ex (\<lambda>c. (int r \<noteq> row \<or> int c \<noteq> col)
                                           \<and> readCell g r c = Num val)
                                    [boxCol..<boxCol + cols])
                        [boxRow..<boxRow + rows])
      })"

text \<open>A loop \<^verbatim>\<open>for (x of xs) if (p(x)) out.push(x)\<close> whose test may throw.\<close>

fun filterOpt :: "('a \<Rightarrow> bool option) \<Rightarrow> 'a list \<Rightarrow> 'a list option" where
  "filterOpt p [] = Some []"
| "filterOpt p (x # xs) =
     do { b \<leftarrow> p x; ys \<leftarrow> filterOpt p xs; Some (if b then x # ys else ys) }"

text \<open>\<open>getCandidates\<close>: \<open>None\<close> in the first line is the \<^verbatim>\<open>TypeError\<close> of
  \<^verbatim>\<open>grid[row][col]\<close> when \<^verbatim>\<open>grid[row]\<close> is \<^verbatim>\<open>undefined\<close>.\<close>

definition getCandidates :: "grid \<Rightarrow> int \<Rightarrow> int \<Rightarrow> int list option" where
  "getCandidates g row col =
     (if row < 0 \<or> row \<ge> int (length g) then None
      else if readCellI g row col \<noteq> Null then Some []
      else filterOpt (\<lambda>v. isValidMove g row col v) [1..int (length g)])"

definition createEmptyGrid :: "nat \<Rightarrow> grid" where
  "createEmptyGrid n = replicate n (replicate n None)"

text \<open>\<open>cloneGrid\<close> copies every row; on contents it is the identity.\<close>

definition cloneGrid :: "grid \<Rightarrow> grid" where
  "cloneGrid g = map (\<lambda>row. map (\<lambda>c. c) row) g"

text \<open>The cells in the order of the nested loops
  \<^verbatim>\<open>for (row = 0; row < n; row++) for (col = 0; col < n; col++)\<close>.\<close>

definition allPositions :: "nat \<Rightarrow> (nat \<times> nat) list" where
  "allPositions n = concat (map (\<lambda>r. map (\<lambda>c. (r, c)) [0..<n]) [0..<n])"

text \<open>\<open>isValidGrid\<close>, from a list of cells still to visit. A cell that reads as
  \<^verbatim>\<open>undefined\<close> (a row shorter than the grid is wide) passes the test
  \<^verbatim>\<open>value !== null\<close> and the source then stores into the row past its end; rows of the
  model hold no \<^verbatim>\<open>undefined\<close>, so this is \<open>None\<close>. The other \<open>None\<close> is the exception of
  \<open>isValidMove\<close>, thrown while the cell is still emptied.\<close>

fun isValidGridFrom :: "grid \<Rightarrow> (nat \<times> nat) list \<Rightarrow> (bool \<times> grid) option" where
  "isValidGridFrom g [] = Some (True, g)"
| "isValidGridFrom g ((row, col) # ps) =
     (case readCell g row col of
        Null \<Rightarrow> isValidGridFrom g ps
      | Undefined \<Rightarrow> None
      | Num v \<Rightarrow>
          (let g1 = setCell g row col None in
           do {
             valid \<leftarrow> isValidMove g1 (int row) (int col) v;
             let g2 = setCell g1 row col (Some v);
             if \<not> valid then Some (False, g2) else isValidGridFrom g2 ps
           }))"

definition isValidGrid :: "grid \<Rightarrow> (bool \<times> grid) option" where
  "isValidGrid g = isValidGridFrom g (allPositions (length g))"

definition isGridComplete :: "grid \<Rightarrow> bool" where
  "isGridComplete g = list_all (\<lambda>row. list_all (\<lambda>c. c \<noteq> None) row) g"


section \<open>Solver (solver.ts)\<close>

text \<open>\<open>findEmptyCell\<close>, from a list of cells still to scan, with the running
  \<open>minCandidates\<close> and \<open>bestCell\<close>. It returns at once at a cell with no candidate and
  at the first cell with one candidate. The inner \<open>option\<close> is the result
  (\<open>None\<close> is \<^verbatim>\<open>null\<close>).\<close>

fun findEmptyFrom ::
  "grid \<Rightarrow> (nat \<times> nat) list \<Rightarrow> nat \<Rightarrow> (nat \<times> nat) option \<Rightarrow> (nat \<times> nat) option option"
where
  "findEmptyFrom g [] minCandidates bestCell = Some bestCell"
| "findEmptyFrom g ((row, col) # ps) minCandidates bestCell =
     (if readCell g row col = Null then
        do {
          candidates \<leftarrow> getCandidates g (int row) (int col);
          if length candidates = 0 then Some (Some (row, col))
          else if length candidates < minCandidates then
            (if length candidates = 1 then Some (Some (row, col))
             else findEmptyFrom g ps (length candidates) (Some (row, col)))
          else findEmptyFrom g ps minCandidates bestCell
        }
      else findEmptyFrom g ps minCandidates bestCell)"

definition findEmptyCell :: "grid \<Rightarrow> (nat \<times> nat) option option" where
  "findEmptyCell g = findEmptyFrom g (allPositions (length g)) (length g + 1) None"

text \<open>\<open>solve\<close> and its loop \<^verbatim>\<open>for (num = 1; num <= gridSize; num++)\<close>. The grid is
  passed along and returned: the second component is the caller's grid after the call.\<close>

function solve :: "grid \<Rightarrow> (bool \<times> grid) option"
  and solveLoop :: "grid \<Rightarrow> nat \<Rightarrow> nat \<Rightarrow> nat \<Rightarrow> nat \<Rightarrow> (bool \<times> grid) option"
where
  "solve g =
     do {
       emptyCell \<leftarrow> findEmptyCell g;
       case emptyCell of
         None \<Rightarrow> Some (True, g)
       | Some (row, col) \<Rightarrow> solveLoop g row col (length g) 1
     }"
| "solveLoop g row col gridSize num =
     (if num \<le> gridSize then
        do {
          ok \<leftarrow> isValidMove g (int row) (int col) (int num);
          if ok then
            do {
              (solved, g') \<leftarrow> solve (setCell g row col (Some (int num)));
              if solved then Some (True, g')
              else solveLoop (setCell g' row col None) row col gridSize (num + 1)
            }
          else solveLoop g row col gridSize (num + 1)
        }
      else Some (False, g))"
  by pat_completeness auto

text \<open>The number of empty cells, and whether a cell lies inside the grid.\<close>

definition nulls :: "grid \<Rightarrow> nat" where
  "nulls g = sum_list (map (\<lambda>row. count_list row None) g)"

definition inGrid :: "grid \<Rightarrow> nat \<Rightarrow> nat \<Rightarrow> bool" where
  "inGrid g r c = (r < length g \<and> c < length (g ! r))"



text \<open>Termination of \<open>solve\<close>: a placement fills a cell that was read as \<^verbatim>\<open>null\<close>, and a
  failed search hands the grid back as it received it, so the loop goes on with one more
  value tried on the same grid.\<close>

lemma setCell_overwrite: "setCell (setCell g r c x) r c y = setCell g r c y"
  by (cases "r < length g") (simp_all add: setCell_def list_update_beyond)

lemma length_setCell [simp]: "length (setCell g r c v) = length g"
  by (simp add: setCell_def)

lemma setCell_same: "readCell g r c = Null \<Longrightarrow> setCell g r c None = g"
proof -
  assume "readCell g r c = Null"
  then have "r < length g" "c < length (g ! r)" "g ! r ! c = None"
    by (auto simp: readCell_def split: if_splits option.splits)
  then have "(g ! r)[c := None] = g ! r" by (metis list_update_id)
  then show ?thesis by (simp add: setCell_def)
qed

lemma inGrid_setCell [simp]: "inGrid (setCell g r c v) r' c' = inGrid g r' c'"
  by (cases "r = r'"; cases "r < length g") (auto simp: inGrid_def setCell_def)

lemma count_list_update_None:
  "c < length row \<Longrightarrow> Suc (count_list (row[c := Some v]) None) = count_list (row[c := None]) None"
  by (induction row arbitrary: c) (auto split: nat.splits)

lemma nulls_setCell:
  assumes "inGrid g r c"
  shows "Suc (nulls (setCell g r c (Some v))) = nulls (setCell g r c None)"
proof -
  from assms have r: "r < length g" and c: "c < length (g ! r)" by (auto simp: inGrid_def)
  have "nulls (setCell g r c x) = sum_list (map (\<lambda>row. count_list row None) (take r g)) + count_list ((g ! r)[c := x]) None + sum_list (map (\<lambda>row. count_list row None) (drop (Suc r) g))" for x
    using r by (simp add: nulls_def setCell_def upd_conv_take_nth_drop)
  then show ?thesis using count_list_update_None[OF c, of v] by simp
qed

lemma findEmptyFrom_Null:
  "findEmptyFrom g ps m best = Some (Some (r, c)) \<Longrightarrow> (\<forall>p. best = Some p \<longrightarrow> readCell g (fst p) (snd p) = Null) \<Longrightarrow> readCell g r c = Null"
  by (induction g ps m best rule: findEmptyFrom.induct) (auto split: if_splits simp: bind_eq_Some_conv)

lemma findEmptyCell_Null: "findEmptyCell g = Some (Some (r, c)) \<Longrightarrow> readCell g r c = Null"
  unfolding findEmptyCell_def by (erule findEmptyFrom_Null) simp

lemma readCell_Null_inGrid: "readCell g r c = Null \<Longrightarrow> inGrid g r c"
  by (auto simp: readCell_def inGrid_def split: if_splits)

lemma solve_restores_p:
  "solve_solveLoop_dom (Inl g) \<Longrightarrow> solve g = Some (False, g') \<Longrightarrow> g' = g"
  "solve_solveLoop_dom (Inr (g, row, col, n, num)) \<Longrightarrow> solveLoop g row col n num = Some (False, g') \<Longrightarrow> g' = g \<or> g' = setCell g row col None"
proof (induction g and g row col n num arbitrary: g' and g' rule: solve_solveLoop.pinduct)
  case (1 g)
  from 1(3) obtain cell where cell: "findEmptyCell g = Some cell"
    by (auto simp: solve.psimps[OF 1(1)] bind_eq_Some_conv)
  show ?case
  proof (cases cell)
    case None
    with 1(3) cell show ?thesis by (simp add: solve.psimps[OF 1(1)])
  next
    case (Some p)
    obtain r c where p: "p = (r, c)" by (cases p)
    from 1(3) cell Some p have "solveLoop g r c (length g) 1 = Some (False, g')"
      by (simp add: solve.psimps[OF 1(1)])
    from 1(2)[OF cell Some p[symmetric] this] findEmptyCell_Null[of g r c] cell Some p
    show ?thesis by (auto dest: setCell_same)
  qed
next
  case (2 g row col gridSize num)
  show ?case
  proof (cases "num \<le> gridSize")
    case False
    with 2 show ?thesis by (simp add: solveLoop.psimps)
  next
    case le: True
    from 2(5) le obtain ok where ok: "isValidMove g (int row) (int col) (int num) = Some ok"
      by (auto simp: solveLoop.psimps[OF 2(1)] bind_eq_Some_conv)
    show ?thesis
    proof (cases ok)
      case False
      with 2(5) le ok have "solveLoop g row col gridSize (num + 1) = Some (False, g')"
        by (simp add: solveLoop.psimps[OF 2(1)])
      with 2(4)[OF le ok False] show ?thesis by simp
    next
      case True
      with 2(5) le ok obtain s g1 where s: "solve (setCell g row col (Some (int num))) = Some (s, g1)"
        and rest: "(if s then Some (True, g1) else solveLoop (setCell g1 row col None) row col gridSize (num + 1)) = Some (False, g')"
        by (auto simp: solveLoop.psimps[OF 2(1)] bind_eq_Some_conv)
      from rest have ns: "\<not> s" by (auto split: if_splits)
      with s 2(2)[OF le ok True] have g1: "g1 = setCell g row col (Some (int num))" by simp
      from rest ns have "solveLoop (setCell g1 row col None) row col gridSize (num + 1) = Some (False, g')" by simp
      from 2(3)[OF le ok True s refl ns this]
      show ?thesis by (simp add: g1 setCell_overwrite)
    qed
  qed
qed


lemma setCell_outside: "\<not> inGrid g r c \<Longrightarrow> setCell g r c v = g"
  by (cases "r < length g") (simp_all add: setCell_def inGrid_def list_update_beyond)

lemma solve_dom_total: "All solve_solveLoop_dom"
proof (rule "solve_solveLoop.termination" [of "measures [case_sum (\<lambda>g. nulls g) (\<lambda>(g, r, c, n, num). if inGrid g r c then nulls (setCell g r c None) else nulls g + 1),
      case_sum (\<lambda>g. 1) (\<lambda>x. 0),
      case_sum (\<lambda>g. 0) (\<lambda>(g, r, c, n, num). n + 1 - num)]"], goal_cases)
  case 1
  show ?case by simp
next
  case (2 g cell p r c)
  then have "readCell g r c = Null" by (auto dest: findEmptyCell_Null)
  then show ?case by (simp add: setCell_same readCell_Null_inGrid)
next
  case (3 g row col gridSize num ok)
  then show ?case using nulls_setCell[of g row col "int num"] by (auto simp: setCell_outside)
next
  case (4 g row col gridSize num ok res s g1)
  then have "g1 = setCell g row col (Some (int num))"
    using solve_restores_p(1)[of "setCell g row col (Some (int num))" g1] by auto
  with 4 show ?case by (auto simp: setCell_overwrite setCell_outside)
next
  case (5 g row col gridSize num ok)
  then show ?case by auto
qed

termination solve
  by (rule solve_dom_total)

lemma solve_restores:
  "solve g = Some (False, g') \<Longrightarrow> g' = g"
  using solve_restores_p(1) solve_dom_total by blast

text \<open>A valid 4x4 grid with no solution: cell (0,0) can only hold 1, and then cell (2,2)
  has no candidate.\<close>

definition gridNoSolution :: grid where
  "gridNoSolution =
     [[None, Some 2, Some 3, Some 4],
      [Some 3, Some 4, Some 1, Some 2],
      [Some 4, Some 3, None, Some 1],
      [None, Some 1, Some 2, Some 3]]"

declare solve.simps [simp del] solveLoop.simps [simp del]


text \<open>\<open>hasUniqueSolution\<close>: the inner function \<open>findSolutions\<close> with the captured array
  \<open>solutions\<close> passed along, and its loop over \<open>num\<close>. The loop empties the cell again
  after every recursive call.\<close>

function findSolutions :: "grid \<Rightarrow> grid list \<Rightarrow> nat \<Rightarrow> (grid \<times> grid list) option"
  and findSolutionsLoop ::
    "grid \<Rightarrow> grid list \<Rightarrow> nat \<Rightarrow> nat \<Rightarrow> nat \<Rightarrow> nat \<Rightarrow> nat \<Rightarrow> (grid \<times> grid list) option"
where
  "findSolutions g solutions maxSolutions =
     (if length solutions \<ge> maxSolutions then Some (g, solutions)
      else do {
        emptyCell \<leftarrow> findEmptyCell g;
        case emptyCell of
          None \<Rightarrow> Some (g, solutions @ [cloneGrid g])
        | Some (row, col) \<Rightarrow> findSolutionsLoop g solutions maxSolutions row col (length g) 1
      })"
| "findSolutionsLoop g solutions maxSolutions row col gridSize num =
     (if num \<le> gridSize then
        do {
          ok \<leftarrow> isValidMove g (int row) (int col) (int num);
          if ok then
            do {
              (g', solutions') \<leftarrow>
                findSolutions (setCell g row col (Some (int num))) solutions maxSolutions;
              let g'' = setCell g' row col None;
              if length solutions' \<ge> maxSolutions then Some (g'', solutions')
              else findSolutionsLoop g'' solutions' maxSolutions row col gridSize (num + 1)
            }
          else findSolutionsLoop g solutions maxSolutions row col gridSize (num + 1)
        }
      else Some (g, solutions))"
  by pat_completeness auto

lemma findSolutions_restores_p:
  "findSolutions_findSolutionsLoop_dom (Inl (g, sols, m)) \<Longrightarrow>
     findSolutions g sols m = Some (g', sols') \<Longrightarrow> g' = g"
  "findSolutions_findSolutionsLoop_dom (Inr (g, sols, m, row, col, n, num)) \<Longrightarrow>
     findSolutionsLoop g sols m row col n num = Some (g', sols') \<Longrightarrow>
     g' = g \<or> g' = setCell g row col None"
proof (induction g sols m and g sols m row col n num arbitrary: g' sols' and g' sols'
    rule: findSolutions_findSolutionsLoop.pinduct)
  case (1 g sols m)
  note ps = findSolutions.psimps [OF 1(1)]
  show ?case
  proof (cases "m \<le> length sols")
    case True
    with 1(3) show ?thesis by (simp add: ps)
  next
    case False
    with 1(3) obtain cell where cell: "findEmptyCell g = Some cell"
      by (auto simp: ps bind_eq_Some_conv)
    show ?thesis
    proof (cases cell)
      case None
      with 1(3) cell False show ?thesis by (simp add: ps)
    next
      case (Some p)
      obtain r c where p: "p = (r, c)" by (cases p)
      from 1(3) cell Some p False
      have "findSolutionsLoop g sols m r c (length g) 1 = Some (g', sols')"
        by (simp add: ps)
      from 1(2) [OF _ cell Some p [symmetric] this] False
        findEmptyCell_Null [of g r c] cell Some p
      show ?thesis by (auto dest: setCell_same)
    qed
  qed
next
  case (2 g sols m row col gridSize num)
  note ps = findSolutionsLoop.psimps [OF 2(1)]
  show ?case
  proof (cases "num \<le> gridSize")
    case False
    with 2 show ?thesis by (simp add: ps)
  next
    case le: True
    from 2(5) le obtain ok where ok: "isValidMove g (int row) (int col) (int num) = Some ok"
      by (auto simp: ps bind_eq_Some_conv)
    show ?thesis
    proof (cases ok)
      case False
      with 2(5) le ok
      have "findSolutionsLoop g sols m row col gridSize (num + 1) = Some (g', sols')"
        by (simp add: ps)
      with 2(4) [OF le ok False] show ?thesis by simp
    next
      case True
      with 2(5) le ok obtain g1 s1 where
        inner: "findSolutions (setCell g row col (Some (int num))) sols m = Some (g1, s1)"
        and rest: "(if m \<le> length s1 then Some (setCell g1 row col None, s1)
                    else findSolutionsLoop (setCell g1 row col None) s1 m row col gridSize (num + 1))
                   = Some (g', sols')"
        by (auto simp: ps bind_eq_Some_conv Let_def)
      from inner 2(2) [OF le ok True] have g1: "g1 = setCell g row col (Some (int num))"
        by simp
      show ?thesis
      proof (cases "m \<le> length s1")
        case True
        with rest show ?thesis by (simp add: g1 setCell_overwrite)
      next
        case False
        with rest have "findSolutionsLoop (setCell g1 row col None) s1 m row col gridSize (num + 1)
                        = Some (g', sols')" by simp
        from 2(3) [OF le ok True inner refl refl _ this] False
        show ?thesis by (simp add: g1 setCell_overwrite)
      qed
    qed
  qed
qed

lemma findSolutions_dom_total: "All findSolutions_findSolutionsLoop_dom"
proof (rule "findSolutions_findSolutionsLoop.termination"
    [of "measures [case_sum (\<lambda>(g, s, m). nulls g)
           (\<lambda>(g, s, m, r, c, n, num).
              if inGrid g r c then nulls (setCell g r c None) else nulls g + 1),
         case_sum (\<lambda>x. 1) (\<lambda>x. 0),
         case_sum (\<lambda>x. 0) (\<lambda>(g, s, m, r, c, n, num). n + 1 - num)]"], goal_cases)
  case 1
  show ?case by simp
next
  case (2 g sols m cell p r c)
  then have "readCell g r c = Null" by (auto dest: findEmptyCell_Null)
  then show ?case by (simp add: setCell_same readCell_Null_inGrid)
next
  case (3 g sols m row col gridSize num ok)
  then show ?case using nulls_setCell [of g row col "int num"] by (auto simp: setCell_outside)
next
  case (4 g sols m row col gridSize num ok res g1 s1 g2)
  then have "g1 = setCell g row col (Some (int num))"
    using findSolutions_restores_p(1) [of "setCell g row col (Some (int num))" sols m g1 s1]
    by auto
  with 4 show ?case by (auto simp: setCell_overwrite setCell_outside)
next
  case (5 g sols m row col gridSize num ok)
  then show ?case by auto
qed

termination findSolutions
  by (rule findSolutions_dom_total)

text \<open>\<open>countSolutions\<close>: the inner function \<open>countSolutionsRecursive\<close> with the captured
  \<open>count\<close> passed along and the captured \<open>max\<close> as \<open>mx\<close>.\<close>

function countSolutionsRecursive :: "grid \<Rightarrow> nat \<Rightarrow> nat \<Rightarrow> (grid \<times> nat) option"
  and countSolutionsLoop ::
    "grid \<Rightarrow> nat \<Rightarrow> nat \<Rightarrow> nat \<Rightarrow> nat \<Rightarrow> nat \<Rightarrow> nat \<Rightarrow> (grid \<times> nat) option"
where
  "countSolutionsRecursive g count mx =
     (if count \<ge> mx then Some (g, count)
      else do {
        emptyCell \<leftarrow> findEmptyCell g;
        case emptyCell of
          None \<Rightarrow> Some (g, count + 1)
        | Some (row, col) \<Rightarrow> countSolutionsLoop g count mx row col (length g) 1
      })"
| "countSolutionsLoop g count mx row col gridSize num =
     (if num \<le> gridSize then
        do {
          ok \<leftarrow> isValidMove g (int row) (int col) (int num);
          if ok then
            do {
              (g', count') \<leftarrow>
                countSolutionsRecursive (setCell g row col (Some (int num))) count mx;
              let g'' = setCell g' row col None;
              if count' \<ge> mx then Some (g'', count')
              else countSolutionsLoop g'' count' mx row col gridSize (num + 1)
            }
          else countSolutionsLoop g count mx row col gridSize (num + 1)
        }
      else Some (g, count))"
  by pat_completeness auto

lemma countSolutionsRecursive_restores_p:
  "countSolutionsRecursive_countSolutionsLoop_dom (Inl (g, sols, m)) \<Longrightarrow>
     countSolutionsRecursive g sols m = Some (g', sols') \<Longrightarrow> g' = g"
  "countSolutionsRecursive_countSolutionsLoop_dom (Inr (g, sols, m, row, col, n, num)) \<Longrightarrow>
     countSolutionsLoop g sols m row col n num = Some (g', sols') \<Longrightarrow>
     g' = g \<or> g' = setCell g row col None"
proof (induction g sols m and g sols m row col n num arbitrary: g' sols' and g' sols'
    rule: countSolutionsRecursive_countSolutionsLoop.pinduct)
  case (1 g sols m)
  note ps = countSolutionsRecursive.psimps [OF 1(1)]
  show ?case
  proof (cases "m \<le> sols")
    case True
    with 1(3) show ?thesis by (simp add: ps)
  next
    case False
    with 1(3) obtain cell where cell: "findEmptyCell g = Some cell"
      by (auto simp: ps bind_eq_Some_conv)
    show ?thesis
    proof (cases cell)
      case None
      with 1(3) cell False show ?thesis by (simp add: ps)
    next
      case (Some p)
      obtain r c where p: "p = (r, c)" by (cases p)
      from 1(3) cell Some p False
      have "countSolutionsLoop g sols m r c (length g) 1 = Some (g', sols')"
        by (simp add: ps)
      from 1(2) [OF _ cell Some p [symmetric] this] False
        findEmptyCell_Null [of g r c] cell Some p
      show ?thesis by (auto dest: setCell_same)
    qed
  qed
next
  case (2 g sols m row col gridSize num)
  note ps = countSolutionsLoop.psimps [OF 2(1)]
  show ?case
  proof (cases "num \<le> gridSize")
    case False
    with 2 show ?thesis by (simp add: ps)
  next
    case le: True
    from 2(5) le obtain ok where ok: "isValidMove g (int row) (int col) (int num) = Some ok"
      by (auto simp: ps bind_eq_Some_conv)
    show ?thesis
    proof (cases ok)
      case False
      with 2(5) le ok
      have "countSolutionsLoop g sols m row col gridSize (num + 1) = Some (g', sols')"
        by (simp add: ps)
      with 2(4) [OF le ok False] show ?thesis by simp
    next
      case True
      with 2(5) le ok obtain g1 s1 where
        inner: "countSolutionsRecursive (setCell g row col (Some (int num))) sols m = Some (g1, s1)"
        and rest: "(if m \<le> s1 then Some (setCell g1 row col None, s1)
                    else countSolutionsLoop (setCell g1 row col None) s1 m row col gridSize (num + 1))
                   = Some (g', sols')"
        by (auto simp: ps bind_eq_Some_conv Let_def)
      from inner 2(2) [OF le ok True] have g1: "g1 = setCell g row col (Some (int num))"
        by simp
      show ?thesis
      proof (cases "m \<le> s1")
        case True
        with rest show ?thesis by (simp add: g1 setCell_overwrite)
      next
        case False
        with rest have "countSolutionsLoop (setCell g1 row col None) s1 m row col gridSize (num + 1)
                        = Some (g', sols')" by simp
        from 2(3) [OF le ok True inner refl refl _ this] False
        show ?thesis by (simp add: g1 setCell_overwrite)
      qed
    qed
  qed
qed

lemma countSolutionsRecursive_dom_total: "All countSolutionsRecursive_countSolutionsLoop_dom"
proof (rule "countSolutionsRecursive_countSolutionsLoop.termination"
    [of "measures [case_sum (\<lambda>(g, s, m). nulls g)
           (\<lambda>(g, s, m, r, c, n, num).
              if inGrid g r c then nulls (setCell g r c None) else nulls g + 1),
         case_sum (\<lambda>x. 1) (\<lambda>x. 0),
         case_sum (\<lambda>x. 0) (\<lambda>(g, s, m, r, c, n, num). n + 1 - num)]"], goal_cases)
  case 1
  show ?case by simp
next
  case (2 g sols m cell p r c)
  then have "readCell g r c = Null" by (auto dest: findEmptyCell_Null)
  then show ?case by (simp add: setCell_same readCell_Null_inGrid)
next
  case (3 g sols m row col gridSize num ok)
  then show ?case using nulls_setCell [of g row col "int num"] by (auto simp: setCell_outside)
next
  case (4 g sols m row col gridSize num ok res g1 s1 g2)
  then have "g1 = setCell g row col (Some (int num))"
    using countSolutionsRecursive_restores_p(1) [of "setCell g row col (Some (int num))" sols m g1 s1]
    by auto
  with 4 show ?case by (auto simp: setCell_overwrite setCell_outside)
next
  case (5 g sols m row col gridSize num ok)
  then show ?case by auto
qed

termination countSolutionsRecursive
  by (rule countSolutionsRecursive_dom_total)

declare findSolutions.simps [simp del] findSolutionsLoop.simps [simp del]
declare countSolutionsRecursive.simps [simp del] countSolutionsLoop.simps [simp del]

definition hasUniqueSolution :: "grid \<Rightarrow> bool option" where
  "hasUniqueSolution g =
     do {
       (gridCopy, solutions) \<leftarrow> findSolutions (cloneGrid g) [] 2;
       Some (length solutions = 1)
     }"

definition countSolutions :: "grid \<Rightarrow> nat \<Rightarrow> nat option" where
  "countSolutions g mx =
     do {
       (gridCopy, count) \<leftarrow> countSolutionsRecursive (cloneGrid g) 0 mx;
       Some count
     }"

text \<open>A 4x4 grid with one empty cell and one solution.\<close>

definition gridUnique :: grid where
  "gridUnique =
     [[None, Some 2, Some 3, Some 4],
      [Some 3, Some 4, Some 1, Some 2],
      [Some 2, Some 1, Some 4, Some 3],
      [Some 4, Some 3, Some 2, Some 1]]"

definition getSolution :: "grid \<Rightarrow> grid option option" where
  "getSolution g =
     do {
       (solved, gridCopy) \<leftarrow> solve (cloneGrid g);
       Some (if solved then Some gridCopy else None)
     }"

text \<open>\<open>getHint\<close>. In the last \<open>case\<close>, a cell of the solved copy that read as
  \<^verbatim>\<open>undefined\<close> would be returned as the hint's value, which is no \<^verbatim>\<open>number\<close>: \<open>None\<close>.\<close>

definition getHint :: "grid \<Rightarrow> (nat \<times> nat \<times> int) option option" where
  "getHint g =
     do {
       emptyCell \<leftarrow> findEmptyCell g;
       case emptyCell of
         None \<Rightarrow> Some None
       | Some (row, col) \<Rightarrow>
           do {
             candidates \<leftarrow> getCandidates g (int row) (int col);
             if length candidates = 0 then Some None
             else do {
               (solved, gridCopy) \<leftarrow> solve (cloneGrid g);
               if solved then
                 (case readCell gridCopy row col of
                    Num v \<Rightarrow> Some (Some (row, col, v))
                  | Null \<Rightarrow> Some None
                  | Undefined \<Rightarrow> None)
               else Some None
             }
           }
     }"

text \<open>The sizes of \<^verbatim>\<open>GridSize = 4 | 6 | 9\<close>.\<close>

definition supportedSize :: "nat \<Rightarrow> bool" where
  "supportedSize n = (n = 4 \<or> n = 6 \<or> n = 9)"

text \<open>A well-formed grid: square, of a supported size.\<close>

definition wfGrid :: "grid \<Rightarrow> bool" where
  "wfGrid g = (supportedSize (length g) \<and> list_all (\<lambda>row. length row = length g) g)"

text \<open>A 4x4 grid with the value 1 twice in its first row.\<close>

definition gridDuplicate :: grid where
  "gridDuplicate =
     [[Some 1, Some 1, None, None],
      [None, None, None, None],
      [None, None, None, None],
      [None, None, None, None]]"

section \<open>Strategy classifier (strategies.ts)\<close>

datatype Strategy =
    Elimination | SingleCandidate | HiddenSingle | NakedPair | NakedTriple | HiddenPair
  | PointingPair | BoxLineReduction | XWing | Guessing | Unknown | Advanced

record StrategyResult =
  strategy :: Strategy
  confidence :: real
  explanation :: string
  affectedCells :: "(int \<times> int) list option"

text \<open>Decimal digits of a number, as template literals print integers.\<close>

fun showNat :: "nat \<Rightarrow> string" where
  "showNat n =
     (if n < 10 then [''0123456789'' ! n]
      else showNat (n div 10) @ [''0123456789'' ! (n mod 10)])"

declare showNat.simps [simp del]

definition showInt :: "int \<Rightarrow> string" where
  "showInt i = (if i < 0 then CHR ''-'' # showNat (nat (- i)) else showNat (nat i))"

text \<open>\<^verbatim>\<open>Array.prototype.sort()\<close> without a comparator orders the elements by their
  string forms, code unit by code unit.\<close>

fun strLess :: "string \<Rightarrow> string \<Rightarrow> bool" where
  "strLess [] [] = False"
| "strLess [] (y # ys) = True"
| "strLess (x # xs) [] = False"
| "strLess (x # xs) (y # ys) =
     ((of_char x :: nat) < of_char y \<or> (x = y \<and> strLess xs ys))"

fun jsInsert :: "int \<Rightarrow> int list \<Rightarrow> int list" where
  "jsInsert x [] = [x]"
| "jsInsert x (y # ys) =
     (if strLess (showInt x) (showInt y) then x # y # ys else y # jsInsert x ys)"

definition jsSort :: "int list \<Rightarrow> int list" where
  "jsSort xs = foldr jsInsert xs []"


definition joinAnd :: "int list \<Rightarrow> string" where
  "joinAnd xs = concat (case map showInt xs of [] \<Rightarrow> [] | y # ys \<Rightarrow> y # map (\<lambda>z. '' and '' @ z) ys)"

definition arraysEqual :: "int list \<Rightarrow> int list \<Rightarrow> bool" where
  "arraysEqual a b = (if length a \<noteq> length b then False else list_all2 (\<lambda>x y. x = y) a b)"

definition boxOrigin :: "nat \<Rightarrow> int \<Rightarrow> int \<Rightarrow> int \<times> int \<times> int \<times> int" where
  "boxOrigin gridSize row col =
     (let boxSize = (if gridSize = 4 then 2 else if gridSize = 6 then 2 else 3);
          boxColSize = (if gridSize = 6 then 3 else boxSize);
          boxRow = (row div boxSize) * boxSize;
          boxCol = (col div boxColSize) * boxColSize
      in (boxRow, boxSize, boxCol, boxColSize))"

definition boxPositions :: "nat \<Rightarrow> int \<Rightarrow> int \<Rightarrow> (int \<times> int) list" where
  "boxPositions gridSize row col =
     (case boxOrigin gridSize row col of (boxRow, boxSize, boxCol, boxColSize) \<Rightarrow>
        concat (map (\<lambda>r. map (\<lambda>c. (r, c)) [boxCol..boxCol + boxColSize - 1])
                    [boxRow..boxRow + boxSize - 1]))"

definition getBoxCells :: "nat \<Rightarrow> int \<Rightarrow> int \<Rightarrow> (int \<times> int) list" where
  "getBoxCells gridSize row col =
     filter (\<lambda>(r, c). r \<noteq> row \<or> c \<noteq> col) (boxPositions gridSize row col)"

definition getRowCells :: "nat \<Rightarrow> int \<Rightarrow> (int \<times> int) list" where
  "getRowCells gridSize row = map (\<lambda>c. (row, int c)) [0..<gridSize]"

definition getColumnCells :: "nat \<Rightarrow> int \<Rightarrow> (int \<times> int) list" where
  "getColumnCells gridSize col = map (\<lambda>r. (int r, col)) [0..<gridSize]"

text \<open>\<open>getRelatedCells\<close>: the \<^verbatim>\<open>Map\<close> keyed by \<^verbatim>\<open>`${row},${col}`\<close> keeps one entry per cell, at
  the place of its first insertion.\<close>

definition getRelatedCells :: "nat \<Rightarrow> int \<Rightarrow> int \<Rightarrow> (int \<times> int) list" where
  "getRelatedCells gridSize row col =
     (let cells = map (\<lambda>c. (row, int c)) (filter (\<lambda>c. int c \<noteq> col) [0..<gridSize])
                @ map (\<lambda>r. (int r, col)) (filter (\<lambda>r. int r \<noteq> row) [0..<gridSize])
                @ getBoxCells gridSize row col
      in rev (remdups (rev cells)))"

text \<open>Whether \<open>val\<close> is a candidate of the cell, for a cell that reads as \<^verbatim>\<open>null\<close>.\<close>

definition candidateAt :: "grid \<Rightarrow> int \<Rightarrow> int \<Rightarrow> int \<Rightarrow> bool option" where
  "candidateAt g row col val =
     (if readCellI g row col = Null
      then do { candidates \<leftarrow> getCandidates g row col; Some (val \<in> set candidates) }
      else Some False)"

definition countValueInRowCandidates :: "grid \<Rightarrow> int \<Rightarrow> int \<Rightarrow> int list option" where
  "countValueInRowCandidates g row val =
     filterOpt (\<lambda>col. candidateAt g row col val) (map int [0..<length g])"

definition countValueInColumnCandidates :: "grid \<Rightarrow> int \<Rightarrow> int \<Rightarrow> int list option" where
  "countValueInColumnCandidates g col val =
     filterOpt (\<lambda>row. candidateAt g row col val) (map int [0..<length g])"

text \<open>\<open>countValueInBoxCandidates\<close>: \<open>None\<close> in the first line of the test is the
  \<^verbatim>\<open>TypeError\<close> of \<^verbatim>\<open>grid[r][c]\<close> for a row \<open>r\<close> outside the grid (only when the size is
  unsupported).\<close>

definition countValueInBoxCandidates ::
  "grid \<Rightarrow> int \<Rightarrow> int \<Rightarrow> int \<Rightarrow> (int \<times> int) list option" where
  "countValueInBoxCandidates g row col val =
     filterOpt (\<lambda>(r, c). if r < 0 \<or> r \<ge> int (length g) then None
                          else candidateAt g r c val)
       (boxPositions (length g) row col)"

definition detectHiddenSingle :: "grid \<Rightarrow> int \<Rightarrow> int \<Rightarrow> int \<Rightarrow> StrategyResult option option"
where
  "detectHiddenSingle g row col val =
     do {
       rowPositions \<leftarrow> countValueInRowCandidates g row val;
       if length rowPositions = 1 \<and> rowPositions ! 0 = col then
         Some (Some \<lparr> strategy = HiddenSingle, confidence = 0.95,
           explanation = showInt val @ '' could only go in this position in row ''
             @ showInt (row + 1) @ ''. All other cells in this row already ruled out ''
             @ showInt val @ ''.'',
           affectedCells = Some (getRowCells (length g) row) \<rparr>)
       else do {
         colPositions \<leftarrow> countValueInColumnCandidates g col val;
         if length colPositions = 1 \<and> colPositions ! 0 = row then
           Some (Some \<lparr> strategy = HiddenSingle, confidence = 0.95,
             explanation = showInt val @ '' could only go in this position in column ''
               @ showInt (col + 1) @ ''. All other cells in this column already ruled out ''
               @ showInt val @ ''.'',
             affectedCells = Some (getColumnCells (length g) col) \<rparr>)
         else do {
           boxPos \<leftarrow> countValueInBoxCandidates g row col val;
           if length boxPos = 1 \<and> fst (boxPos ! 0) = row \<and> snd (boxPos ! 0) = col then
             Some (Some \<lparr> strategy = HiddenSingle, confidence = 0.95,
               explanation = showInt val
                 @ '' could only go in this position in this box. All other cells in this box already ruled out ''
                 @ showInt val @ ''.'',
               affectedCells = Some (getBoxCells (length g) row col) \<rparr>)
           else Some None
         }
       }
     }"

text \<open>The loop of \<open>detectNakedSet\<close> over the columns \<open>c\<close> of the row; \<open>candidates\<close> is the
  cell's candidate list, which \<^verbatim>\<open>candidates.sort()\<close> has sorted in place once the first
  comparison has been made. \<open>val\<close> is a parameter that the source never reads.\<close>

fun nakedSetLoop ::
  "grid \<Rightarrow> int \<Rightarrow> int \<Rightarrow> int list \<Rightarrow> nat list \<Rightarrow> StrategyResult option option" where
  "nakedSetLoop g row col candidates [] = Some None"
| "nakedSetLoop g row col candidates (c # cs) =
     (if int c \<noteq> col \<and> readCellI g row (int c) = Null then
        do {
          otherCandidates \<leftarrow> getCandidates g row (int c);
          if length otherCandidates = 2
            \<and> arraysEqual (jsSort candidates) (jsSort otherCandidates)
          then Some (Some \<lparr> strategy = NakedPair, confidence = 0.85,
            explanation = ''This cell and another cell in row '' @ showInt (row + 1)
              @ '' both have only '' @ joinAnd (jsSort candidates)
              @ '' as possibilities, forming a Naked Pair.'',
            affectedCells = Some [(row, col), (row, int c)] \<rparr>)
          else if length otherCandidates = 2
            then nakedSetLoop g row col (jsSort candidates) cs
            else nakedSetLoop g row col candidates cs
        }
      else nakedSetLoop g row col candidates cs)"

definition detectNakedSet :: "grid \<Rightarrow> int \<Rightarrow> int \<Rightarrow> int \<Rightarrow> StrategyResult option option"
where
  "detectNakedSet g row col val =
     do {
       candidates \<leftarrow> getCandidates g row col;
       if length candidates = 2 then nakedSetLoop g row col candidates [0..<length g]
       else Some None
     }"

definition detectStrategy :: "grid \<Rightarrow> int \<Rightarrow> int \<Rightarrow> int \<Rightarrow> StrategyResult option" where
  "detectStrategy g row col val =
     do {
       candidates \<leftarrow> getCandidates g row col;
       if length candidates = 1 \<and> candidates ! 0 = val then
         Some \<lparr> strategy = SingleCandidate, confidence = 1.0,
           explanation = ''This cell could only be '' @ showInt val
             @ ''. All other numbers were already used in this row, column, or box.'',
           affectedCells = Some (getRelatedCells (length g) row col) \<rparr>
       else do {
         hiddenSingle \<leftarrow> detectHiddenSingle g row col val;
         case hiddenSingle of
           Some res \<Rightarrow> Some res
         | None \<Rightarrow>
             if length candidates \<le> 3 \<and> val \<in> set candidates then
               Some \<lparr> strategy = Elimination, confidence = 0.8,
                 explanation = ''By eliminating other numbers, '' @ showInt val
                   @ '' was one of the few remaining possibilities for this cell.'',
                 affectedCells = Some (getRelatedCells (length g) row col) \<rparr>
             else do {
               nakedSet \<leftarrow> detectNakedSet g row col val;
               case nakedSet of
                 Some res \<Rightarrow> Some res
               | None \<Rightarrow>
                   if val \<in> set candidates then
                     Some \<lparr> strategy = Unknown, confidence = 0.5,
                       explanation = showInt val
                         @ '' was a valid choice for this cell, but the specific strategy used is unclear.'',
                       affectedCells = None \<rparr>
                   else
                     Some \<lparr> strategy = Guessing, confidence = 0.3,
                       explanation = ''This move doesn't follow a clear logical pattern. Consider looking for cells with fewer possibilities first.'',
                       affectedCells = None \<rparr>
             }
       }
     }"

text \<open>The grid of the naked-pair test of strategies.test.ts: cells (0,1) and (0,3) both
  have the candidates 3 and 4.\<close>

definition gridNakedPair :: grid where
  "gridNakedPair =
     [[Some 1, None, Some 2, None],
      [None, None, None, None],
      [None, None, None, None],
      [None, None, None, None]]"


section \<open>Generator (generator.ts)\<close>

text \<open>The outside world the generator reads: what the successive calls of
  \<^verbatim>\<open>Math.random()\<close> and of \<^verbatim>\<open>Date.now()\<close> (or \<^verbatim>\<open>new Date()\<close>) will return.\<close>

record world =
  mathRandom :: "nat \<Rightarrow> real"
  dateNow :: "nat \<Rightarrow> int"

definition nextDateNow :: "world \<Rightarrow> int \<times> world" where
  "nextDateNow w = (dateNow w 0, w\<lparr>dateNow := \<lambda>n. dateNow w (Suc n)\<rparr>)"

text \<open>JavaScript's \<^verbatim>\<open>%\<close> on integers: the remainder takes the sign of the dividend.\<close>

definition jsRem :: "int \<Rightarrow> int \<Rightarrow> int" where
  "jsRem a b = sgn a * (\<bar>a\<bar> mod \<bar>b\<bar>)"

text \<open>A random source \<^verbatim>\<open>() => number\<close>: the closure of \<open>seededRandom\<close> with its captured
  \<open>state\<close>, or \<^verbatim>\<open>Math.random\<close>. Numbers are exact here: \<open>state / 233280\<close> is the rational
  number, not its nearest double.\<close>

datatype rng = Seeded int | MathRandom

definition seededRandom :: "int \<Rightarrow> rng" where
  "seededRandom seed = Seeded seed"

fun random :: "rng \<Rightarrow> world \<Rightarrow> real \<times> rng \<times> world" where
  "random (Seeded state) w =
     (let state' = jsRem (state * 9301 + 49297) 233280
      in (real_of_int state' / 233280, Seeded state', w))"
| "random MathRandom w =
     (mathRandom w 0, MathRandom, w\<lparr>mathRandom := \<lambda>n. mathRandom w (Suc n)\<rparr>)"

text \<open>\<open>shuffleArray\<close>, from the index \<open>i\<close> down to 1. An index \<open>j\<close> outside the array
  would store \<^verbatim>\<open>undefined\<close> into it: \<open>None\<close>.\<close>

fun shuffleFrom :: "nat \<Rightarrow> 'a list \<Rightarrow> rng \<Rightarrow> world \<Rightarrow> ('a list \<times> rng \<times> world) option" where
  "shuffleFrom 0 array rng w = Some (array, rng, w)"
| "shuffleFrom (Suc k) array rng w =
     (case random rng w of (x, rng', w') \<Rightarrow>
        (let i = Suc k; j = \<lfloor>x * real (i + 1)\<rfloor> in
         if j < 0 \<or> j \<ge> int (length array) then None
         else shuffleFrom k (array[i := array ! nat j, nat j := array ! i]) rng' w'))"

definition shuffleArray :: "'a list \<Rightarrow> rng \<Rightarrow> world \<Rightarrow> ('a list \<times> rng \<times> world) option" where
  "shuffleArray array rng w = shuffleFrom (length array - 1) array rng w"

definition generateSolvedGrid :: "nat \<Rightarrow> int option \<Rightarrow> world \<Rightarrow> (grid \<times> world) option" where
  "generateSolvedGrid sz seed w =
     do {
       let grid = createEmptyGrid sz;
       let rng = (case seed of Some s \<Rightarrow> seededRandom s | None \<Rightarrow> MathRandom);
       (numbers, rng', w') \<leftarrow> shuffleArray [1..int sz] rng w;
       let grid = fold (\<lambda>c g. setCell g 0 c (Some (numbers ! c))) [0..<sz] grid;
       (solved, grid) \<leftarrow> solve grid;
       Some (grid, w')
     }"

definition getCluesForDifficulty :: "nat \<Rightarrow> Difficulty \<Rightarrow> nat" where
  "getCluesForDifficulty sz difficulty =
     (if sz = 4 then
        (case difficulty of Beginner \<Rightarrow> 12 | Easy \<Rightarrow> 10 | Medium \<Rightarrow> 8 | Hard \<Rightarrow> 6
         | Expert \<Rightarrow> 5)
      else if sz = 6 then
        (case difficulty of Beginner \<Rightarrow> 27 | Easy \<Rightarrow> 24 | Medium \<Rightarrow> 20 | Hard \<Rightarrow> 16
         | Expert \<Rightarrow> 14)
      else if sz = 9 then
        (case difficulty of Beginner \<Rightarrow> 50 | Easy \<Rightarrow> 40 | Medium \<Rightarrow> 32 | Hard \<Rightarrow> 26
         | Expert \<Rightarrow> 22)
      else (sz * sz * 4) div 10)"

text \<open>The loop of \<open>removeNumbers\<close> over the shuffled positions. \<open>None\<close> in the second line
  is a position outside the grid, whose \<open>backup\<close> would be \<^verbatim>\<open>undefined\<close>.\<close>

fun removeLoop :: "grid \<Rightarrow> int \<Rightarrow> int \<Rightarrow> (nat \<times> nat) list \<Rightarrow> grid option" where
  "removeLoop g count removed [] = Some g"
| "removeLoop g count removed ((row, col) # ps) =
     (if removed \<ge> count then Some g
      else if \<not> inGrid g row col then None
      else
        (let backup = g ! row ! col; g1 = setCell g row col None in
         do {
           unique \<leftarrow> hasUniqueSolution g1;
           if unique then removeLoop g1 count (removed + 1) ps
           else removeLoop (setCell g1 row col backup) count removed ps
         }))"

definition removeNumbers :: "grid \<Rightarrow> int \<Rightarrow> int option \<Rightarrow> world \<Rightarrow> (grid \<times> world) option" where
  "removeNumbers g count seed w =
     do {
       let rng = (case seed of Some s \<Rightarrow> seededRandom (s * 2) | None \<Rightarrow> MathRandom);
       (positions, rng', w') \<leftarrow> shuffleArray (allPositions (length g)) rng w;
       g' \<leftarrow> removeLoop g count 0 positions;
       Some (g', w')
     }"

record Puzzle =
  puzzleId :: string
  puzzleGrid :: grid
  puzzleSolution :: grid
  puzzleDifficulty :: Difficulty
  puzzleGridSize :: nat
  puzzleCreatedAt :: int

definition showDifficulty :: "Difficulty \<Rightarrow> string" where
  "showDifficulty d =
     (case d of Beginner \<Rightarrow> ''beginner'' | Easy \<Rightarrow> ''easy'' | Medium \<Rightarrow> ''medium''
      | Hard \<Rightarrow> ''hard'' | Expert \<Rightarrow> ''expert'')"

text \<open>\<^verbatim>\<open>seed || Date.now()\<close>: an absent seed and the seed 0 both read the clock.\<close>

definition seedOrNow :: "int option \<Rightarrow> world \<Rightarrow> int \<times> world" where
  "seedOrNow seed w =
     (case seed of Some s \<Rightarrow> if s \<noteq> 0 then (s, w) else nextDateNow w | None \<Rightarrow> nextDateNow w)"

definition generatePuzzleId :: "nat \<Rightarrow> Difficulty \<Rightarrow> int option \<Rightarrow> world \<Rightarrow> string \<times> world" where
  "generatePuzzleId sz difficulty seed w =
     (case seedOrNow seed w of (timestamp, w') \<Rightarrow>
        (showNat sz @ ''x'' @ showNat sz @ ''-'' @ showDifficulty difficulty @ ''-''
           @ showInt timestamp, w'))"

text \<open>\<open>generatePuzzle\<close>. The retry \<^verbatim>\<open>generatePuzzle(sz, difficulty, seed ? seed + 1 : Date.now())\<close>
  has no bound, so the function is partial: \<open>None\<close> is also a run of retries without end.\<close>

partial_function (option) generatePuzzle ::
  "nat \<Rightarrow> Difficulty \<Rightarrow> int option \<Rightarrow> world \<Rightarrow> (Puzzle \<times> world) option"
where
  "generatePuzzle sz difficulty seed w =
     do {
       (solution, w1) \<leftarrow> generateSolvedGrid sz seed w;
       let grid = cloneGrid solution;
       let clues = getCluesForDifficulty sz difficulty;
       let totalCells = sz * sz;
       (grid, w2) \<leftarrow> removeNumbers grid (int totalCells - int clues) seed w1;
       unique \<leftarrow> hasUniqueSolution grid;
       if \<not> unique then
         (case (case seed of Some s \<Rightarrow> if s \<noteq> 0 then (s + 1, w2) else nextDateNow w2
                | None \<Rightarrow> nextDateNow w2) of
            (seed', w3) \<Rightarrow> generatePuzzle sz difficulty (Some seed') w3)
       else
         (case generatePuzzleId sz difficulty seed w2 of (ident, w3) \<Rightarrow>
            (case nextDateNow w3 of (now, w4) \<Rightarrow>
               Some (\<lparr> puzzleId = ident, puzzleGrid = grid, puzzleSolution = solution,
                       puzzleDifficulty = difficulty, puzzleGridSize = sz,
                       puzzleCreatedAt = now \<rparr>, w4)))
     }"

declare generatePuzzle.simps [code]

definition world0 :: world where
  "world0 = \<lparr> mathRandom = (\<lambda>n. 0), dateNow = (\<lambda>n. 1000) \<rparr>"

section \<open>Facts about the validator and the cell selection\<close>

lemma cloneGrid_id [simp]: "cloneGrid g = g"
  by (simp add: cloneGrid_def)

lemma getBoxDimensions_supported:
  "supportedSize n \<Longrightarrow> \<exists>rows cols. getBoxDimensions n = Some (rows, cols)"
  by (auto simp: supportedSize_def getBoxDimensions_def)

lemma isValidMove_total:
  "supportedSize (length g) \<Longrightarrow> \<exists>b. isValidMove g row col v = Some b"
  using getBoxDimensions_supported [of "length g"]
  by (auto simp: isValidMove_def Let_def)

lemma filterOpt_total:
  "(\<And>x. x \<in> set xs \<Longrightarrow> \<exists>b. p x = Some b) \<Longrightarrow> \<exists>ys. filterOpt p xs = Some ys"
  by (induction xs) (auto, fastforce)

lemma filterOpt_length: "filterOpt p xs = Some ys \<Longrightarrow> length ys \<le> length xs"
  by (induction xs arbitrary: ys) (auto simp: bind_eq_Some_conv split: if_splits)

lemma filterOpt_set:
  "filterOpt p xs = Some ys \<Longrightarrow> ys = filter (\<lambda>x. p x = Some True) xs"
  by (induction xs arbitrary: ys) (auto simp: bind_eq_Some_conv split: if_splits)

lemma getCandidates_total:
  "supportedSize (length g) \<Longrightarrow> 0 \<le> row \<Longrightarrow> row < int (length g) \<Longrightarrow>
     \<exists>cs. getCandidates g row col = Some cs"
  by (auto simp: getCandidates_def intro!: filterOpt_total isValidMove_total)

lemma getCandidates_length:
  "getCandidates g row col = Some cs \<Longrightarrow> length cs \<le> length g"
  by (auto simp: getCandidates_def split: if_splits dest!: filterOpt_length)

lemma set_allPositions: "set (allPositions n) = {(r, c). r < n \<and> c < n}"
  by (auto simp: allPositions_def)

lemma findEmptyFrom_total:
  "supportedSize (length g) \<Longrightarrow> \<forall>p \<in> set ps. fst p < length g \<Longrightarrow>
     \<exists>cell. findEmptyFrom g ps m best = Some cell"
proof (induction g ps m best rule: findEmptyFrom.induct)
  case (1 g m best)
  then show ?case by simp
next
  case (2 g row col ps m best)
  from 2(4,5) obtain cs where cs: "getCandidates g (int row) (int col) = Some cs"
    using getCandidates_total [of g "int row" "int col"] by auto
  with 2 show ?case by auto
qed

lemma findEmptyCell_total:
  "supportedSize (length g) \<Longrightarrow> \<exists>cell. findEmptyCell g = Some cell"
  unfolding findEmptyCell_def by (rule findEmptyFrom_total) (auto simp: set_allPositions)

lemma findEmptyFrom_None:
  "findEmptyFrom g ps m best = Some None \<Longrightarrow> (best = None \<longrightarrow> length g < m) \<Longrightarrow>
     best = None \<and> (\<forall>p \<in> set ps. readCell g (fst p) (snd p) \<noteq> Null)"
proof (induction g ps m best rule: findEmptyFrom.induct)
  case (1 g m best)
  then show ?case by simp
next
  case (2 g row col ps m best)
  show ?case
  proof (cases "readCell g row col = Null")
    case False
    with 2(4) have "findEmptyFrom g ps m best = Some None" by simp
    from 2(3) [OF False this 2(5)] False show ?thesis by simp
  next
    case True
    with 2(4) obtain cs where cs: "getCandidates g (int row) (int col) = Some cs"
      by (auto simp: bind_eq_Some_conv)
    from getCandidates_length [OF cs] have len: "length cs \<le> length g" .
    from 2(4) True cs have n0: "length cs \<noteq> 0"
      by (auto split: if_splits)
    show ?thesis
    proof (cases "length cs < m")
      case less: True
      from 2(4) True cs n0 less have n1: "length cs \<noteq> 1"
        by (auto split: if_splits)
      from 2(4) True cs n0 less n1
      have "findEmptyFrom g ps (length cs) (Some (row, col)) = Some None"
        by (auto split: if_splits)
      from 2(1) [OF True cs n0 less n1 this] have False by simp
      then show ?thesis ..
    next
      case False
      with len 2(5) have b: "best \<noteq> None" by auto
      from 2(4) True cs n0 False
      have "findEmptyFrom g ps m best = Some None"
        by (auto split: if_splits)
      from 2(2) [OF True cs n0 False this] 2(5) b have False by simp
      then show ?thesis ..
    qed
  qed
qed

lemma findEmptyCell_None:
  "findEmptyCell g = Some None \<Longrightarrow> r < length g \<Longrightarrow> c < length g \<Longrightarrow> readCell g r c \<noteq> Null"
  unfolding findEmptyCell_def
  by (drule findEmptyFrom_None) (auto simp: set_allPositions)

lemma findEmptyFrom_pos:
  "findEmptyFrom g ps m best = Some (Some p) \<Longrightarrow> p \<in> set ps \<or> best = Some p"
  by (induction g ps m best rule: findEmptyFrom.induct) (auto split: if_splits simp: bind_eq_Some_conv)

lemma findEmptyCell_pos:
  "findEmptyCell g = Some (Some (r, c)) \<Longrightarrow> r < length g \<and> c < length g"
  unfolding findEmptyCell_def by (drule findEmptyFrom_pos) (auto simp: set_allPositions)

section \<open>Facts about \<open>solve\<close>\<close>

lemma map_length_setCell [simp]: "map length (setCell g r c v) = map length g"
  by (cases "r < length g") (simp_all add: setCell_def map_update list_update_beyond list_update_same_conv)

lemma solve_shape:
  "solve g = Some (b, g') \<Longrightarrow> map length g' = map length g"
  "solveLoop g row col n num = Some (b, g') \<Longrightarrow> map length g' = map length g"
proof (induction g and g row col n num arbitrary: b g' and b g' rule: solve_solveLoop.induct)
  case (1 g)
  from 1(2) obtain cell where cell: "findEmptyCell g = Some cell"
    by (auto simp: solve.simps [of g] bind_eq_Some_conv)
  show ?case
  proof (cases cell)
    case None
    with 1(2) cell show ?thesis by (simp add: solve.simps [of g])
  next
    case (Some p)
    obtain r c where p: "p = (r, c)" by (cases p)
    from 1(2) cell Some p have "solveLoop g r c (length g) 1 = Some (b, g')"
      by (simp add: solve.simps [of g])
    from 1(1) [OF cell Some p [symmetric] this] show ?thesis .
  qed
next
  case (2 g row col gridSize num)
  note ss = solveLoop.simps [of g row col gridSize num]
  show ?case
  proof (cases "num \<le> gridSize")
    case False
    with 2(4) show ?thesis by (simp add: ss)
  next
    case le: True
    from 2(4) le obtain ok where ok: "isValidMove g (int row) (int col) (int num) = Some ok"
      by (auto simp: ss bind_eq_Some_conv)
    show ?thesis
    proof (cases ok)
      case False
      with 2(4) le ok have "solveLoop g row col gridSize (num + 1) = Some (b, g')"
        by (simp add: ss)
      from 2(3) [OF le ok False this] show ?thesis .
    next
      case True
      with 2(4) le ok obtain s g1 where
        s: "solve (setCell g row col (Some (int num))) = Some (s, g1)"
        and rest: "(if s then Some (True, g1)
                    else solveLoop (setCell g1 row col None) row col gridSize (num + 1))
                   = Some (b, g')"
        by (auto simp: ss bind_eq_Some_conv)
      from 2(1) [OF le ok True s] have g1: "map length g1 = map length g" by simp
      show ?thesis
      proof (cases s)
        case True
        with rest g1 show ?thesis by simp
      next
        case False
        with rest have "solveLoop (setCell g1 row col None) row col gridSize (num + 1) = Some (b, g')"
          by simp
        from 2(2) [OF le ok True s refl False this] g1 show ?thesis by simp
      qed
    qed
  qed
qed

lemma solve_success:
  "solve g = Some (True, g') \<Longrightarrow> findEmptyCell g' = Some None"
  "solveLoop g row col n num = Some (True, g') \<Longrightarrow> findEmptyCell g' = Some None"
proof (induction g and g row col n num arbitrary: g' and g' rule: solve_solveLoop.induct)
  case (1 g)
  from 1(2) obtain cell where cell: "findEmptyCell g = Some cell"
    by (auto simp: solve.simps [of g] bind_eq_Some_conv)
  show ?case
  proof (cases cell)
    case None
    with 1(2) cell show ?thesis by (simp add: solve.simps [of g])
  next
    case (Some p)
    obtain r c where p: "p = (r, c)" by (cases p)
    from 1(2) cell Some p have "solveLoop g r c (length g) 1 = Some (True, g')"
      by (simp add: solve.simps [of g])
    from 1(1) [OF cell Some p [symmetric] this] show ?thesis .
  qed
next
  case (2 g row col gridSize num)
  note ss = solveLoop.simps [of g row col gridSize num]
  show ?case
  proof (cases "num \<le> gridSize")
    case False
    with 2(4) show ?thesis by (simp add: ss)
  next
    case le: True
    from 2(4) le obtain ok where ok: "isValidMove g (int row) (int col) (int num) = Some ok"
      by (auto simp: ss bind_eq_Some_conv)
    show ?thesis
    proof (cases ok)
      case False
      with 2(4) le ok have "solveLoop g row col gridSize (num + 1) = Some (True, g')"
        by (simp add: ss)
      from 2(3) [OF le ok False this] show ?thesis .
    next
      case True
      with 2(4) le ok obtain s g1 where
        s: "solve (setCell g row col (Some (int num))) = Some (s, g1)"
        and rest: "(if s then Some (True, g1)
                    else solveLoop (setCell g1 row col None) row col gridSize (num + 1))
                   = Some (True, g')"
        by (auto simp: ss bind_eq_Some_conv)
      show ?thesis
      proof (cases s)
        case True
        with rest s 2(1) [OF le ok \<open>ok\<close>] show ?thesis by simp
      next
        case False
        with rest have "solveLoop (setCell g1 row col None) row col gridSize (num + 1) = Some (True, g')"
          by simp
        from 2(2) [OF le ok True s refl False this] show ?thesis .
      qed
    qed
  qed
qed

lemma solve_total:
  "supportedSize (length g) \<Longrightarrow> \<exists>b g'. solve g = Some (b, g')"
  "supportedSize (length g) \<Longrightarrow> \<exists>b g'. solveLoop g row col n num = Some (b, g')"
proof (induction g and g row col n num rule: solve_solveLoop.induct)
  case (1 g)
  from findEmptyCell_total [OF 1(2)] obtain cell where cell: "findEmptyCell g = Some cell" ..
  show ?case
  proof (cases cell)
    case None
    with cell show ?thesis by (auto simp add: solve.simps [of g])
  next
    case (Some p)
    obtain r c where p: "p = (r, c)" by (cases p)
    from 1(1) [OF cell Some p [symmetric] 1(2)] cell Some p show ?thesis
      by (auto simp add: solve.simps [of g])
  qed
next
  case (2 g row col gridSize num)
  note ss = solveLoop.simps [of g row col gridSize num]
  show ?case
  proof (cases "num \<le> gridSize")
    case False
    then show ?thesis by (auto simp add: ss)
  next
    case le: True
    from isValidMove_total [OF 2(4)] obtain ok where
      ok: "isValidMove g (int row) (int col) (int num) = Some ok" by blast
    show ?thesis
    proof (cases ok)
      case False
      with 2(3) [OF le ok False 2(4)] le ok show ?thesis by (auto simp add: ss)
    next
      case True
      from 2(1) [OF le ok True] 2(4) obtain s g1 where
        s: "solve (setCell g row col (Some (int num))) = Some (s, g1)" by auto
      show ?thesis
      proof (cases s)
        case True
        with s le ok \<open>ok\<close> show ?thesis by (auto simp add: ss)
      next
        case False
        from solve_shape(1) [OF s] have "length g1 = length g"
          by (metis length_map length_setCell)
        with 2(2) [OF le ok True s refl False] 2(4) s le ok True False
        show ?thesis by (auto simp add: ss)
      qed
    qed
  qed
qed

section \<open>Properties of the solver\<close>

text \<open>C4. For every grid on which \<open>solve\<close> returns \<open>false\<close>, the grid after the call is
  cell for cell the grid before the call: every placement of the failed search has been
  undone. (\<open>solve\<close> is a total function: the search always ends.)\<close>

theorem solve_failure_restores_grid:
  "solve g = Some (False, g') \<Longrightarrow> g' = g"
proof -
  assume run: "solve g = Some (False, g')"
  have "solve_solveLoop_dom (Inl g)"
    using solve_dom_total by blast
  from solve_restores_p(1) [OF this run] show "g' = g" .
qed

theorem solve_failure_restores_grid_witness:
  "solve gridNoSolution = Some (False, gridNoSolution)"
proof -
  have run: "solve gridNoSolution = Some (False, snd (the (solve gridNoSolution)))"
    unfolding gridNoSolution_def by code_simp
  from solve_failure_restores_grid [OF run]
  have "snd (the (solve gridNoSolution)) = gridNoSolution" .
  with run show ?thesis by simp
qed


text \<open>The two searches run in lockstep: on the same grid, with as many solutions
  recorded as counted, they make the same calls and end with the same grid.\<close>

lemma find_count:
  "map_option (\<lambda>(g', s). (g', length s)) (findSolutions g sols m)
     = countSolutionsRecursive g (length sols) m"
  "map_option (\<lambda>(g', s). (g', length s)) (findSolutionsLoop g sols m row col n num)
     = countSolutionsLoop g (length sols) m row col n num"
proof (induction g sols m and g sols m row col n num
    rule: findSolutions_findSolutionsLoop.induct)
  case (1 g sols m)
  show ?case
  proof (cases "m \<le> length sols")
    case True
    then show ?thesis
      by (simp add: findSolutions.simps [of g] countSolutionsRecursive.simps [of g])
  next
    case False
    show ?thesis
    proof (cases "findEmptyCell g")
      case None
      with False show ?thesis
        by (simp add: findSolutions.simps [of g] countSolutionsRecursive.simps [of g])
    next
      case (Some cell)
      show ?thesis
      proof (cases cell)
        case None
        with False Some show ?thesis
          by (simp add: findSolutions.simps [of g] countSolutionsRecursive.simps [of g])
      next
        case inner: (Some p)
        obtain r c where p: "p = (r, c)" by (cases p)
        from 1 [OF False Some inner p [symmetric]] False Some inner p show ?thesis
          by (simp add: findSolutions.simps [of g] countSolutionsRecursive.simps [of g])
      qed
    qed
  qed
next
  case (2 g sols m row col n num)
  note fs = findSolutionsLoop.simps [of g sols m row col n num]
  note cs = countSolutionsLoop.simps [of g "length sols" m row col n num]
  show ?case
  proof (cases "num \<le> n")
    case False
    then show ?thesis by (simp add: fs cs)
  next
    case le: True
    show ?thesis
    proof (cases "isValidMove g (int row) (int col) (int num)")
      case None
      with le show ?thesis by (simp add: fs cs)
    next
      case (Some ok)
      show ?thesis
      proof (cases ok)
        case False
        with 2(3) [OF le Some False] le Some show ?thesis by (simp add: fs cs)
      next
        case True
        note ih1 = 2(1) [OF le Some True]
        show ?thesis
        proof (cases "findSolutions (setCell g row col (Some (int num))) sols m")
          case None
          with ih1 have "countSolutionsRecursive (setCell g row col (Some (int num))) (length sols) m = None"
            by simp
          with None le Some True show ?thesis by (simp add: fs cs)
        next
          case res: (Some a)
          obtain g1 s1 where a: "a = (g1, s1)" by (cases a)
          from ih1 res a
          have c1: "countSolutionsRecursive (setCell g row col (Some (int num))) (length sols) m
                    = Some (g1, length s1)" by simp
          show ?thesis
          proof (cases "m \<le> length s1")
            case full: True
            with res a c1 le Some True show ?thesis by (simp add: fs cs)
          next
            case notfull: False
            from 2(2) [OF le Some True res a [symmetric] refl notfull]
              res a c1 le Some True notfull
            show ?thesis by (simp add: fs cs)
          qed
        qed
      qed
    qed
  qed
qed


text \<open>C3. For every grid, \<open>hasUniqueSolution\<close> returns \<open>true\<close> if and only if
  \<open>countSolutions\<close> with cap 2 returns 1 (and one throws exactly when the other does).\<close>

theorem hasUniqueSolution_iff_countSolutions:
  "hasUniqueSolution g = map_option (\<lambda>n. n = 1) (countSolutions g 2)"
proof (cases "findSolutions (cloneGrid g) [] 2")
  case None
  with find_count(1) [of "cloneGrid g" "[]" 2]
  have "countSolutionsRecursive (cloneGrid g) 0 2 = None" by simp
  with None show ?thesis by (simp add: hasUniqueSolution_def countSolutions_def)
next
  case (Some a)
  obtain g' sols where a: "a = (g', sols)" by (cases a)
  with Some find_count(1) [of "cloneGrid g" "[]" 2]
  have "countSolutionsRecursive (cloneGrid g) 0 2 = Some (g', length sols)" by simp
  with Some a show ?thesis by (simp add: hasUniqueSolution_def countSolutions_def)
qed

theorem hasUniqueSolution_iff_countSolutions_witness:
  "hasUniqueSolution gridUnique = Some True \<and> countSolutions gridUnique 2 = Some 1
   \<and> hasUniqueSolution gridNoSolution = Some False \<and> countSolutions gridNoSolution 2 = Some 0"
proof -
  have c1: "countSolutions gridUnique 2 = Some 1"
    unfolding gridUnique_def by code_simp
  have c2: "countSolutions gridNoSolution 2 = Some 0"
    unfolding gridNoSolution_def by code_simp
  from hasUniqueSolution_iff_countSolutions [of gridUnique]
    hasUniqueSolution_iff_countSolutions [of gridNoSolution] c1 c2
  show ?thesis by simp
qed

section \<open>Properties of the validator\<close>

lemma readCell_setCell:
  "readCell (setCell g r c x) r' c' =
     (if r' = r \<and> c' = c \<and> inGrid g r c then (case x of None \<Rightarrow> Null | Some v \<Rightarrow> Num v)
      else readCell g r' c')"
  by (cases "r' = r"; cases "c' = c")
     (auto simp: readCell_def setCell_def inGrid_def nth_list_update)

lemma setCell_same_Num: "readCell g r c = Num v \<Longrightarrow> setCell g r c (Some v) = g"
proof -
  assume "readCell g r c = Num v"
  then have "r < length g" "c < length (g ! r)" "g ! r ! c = Some v"
    by (auto simp: readCell_def split: if_splits option.splits)
  then have "(g ! r)[c := Some v] = g ! r" by (metis list_update_id)
  then show ?thesis by (simp add: setCell_def)
qed

lemma isValidMove_own_cell:
  "isValidMove (setCell g r c x) (int r) (int c) v = isValidMove g (int r) (int c) v"
  by (simp add: isValidMove_def readCell_setCell Let_def cong: conj_cong list_ex_cong)

lemma wfGrid_inGrid: "wfGrid g \<Longrightarrow> r < length g \<Longrightarrow> c < length g \<Longrightarrow> inGrid g r c"
  by (auto simp: wfGrid_def inGrid_def list_all_length)

lemma isValidGridFrom_restores:
  assumes "supportedSize (length g)"
  shows "\<forall>p \<in> set ps. inGrid g (fst p) (snd p) \<Longrightarrow> \<exists>b. isValidGridFrom g ps = Some (b, g)"
proof (induction ps)
  case Nil
  show ?case by auto
next
  case (Cons p ps)
  obtain row col where p: "p = (row, col)" by (cases p)
  from Cons.prems p have ing: "inGrid g row col" by simp
  from Cons have ih: "\<exists>b. isValidGridFrom g ps = Some (b, g)" by simp
  show ?case
  proof (cases "readCell g row col")
    case Undefined
    with ing show ?thesis by (auto simp: readCell_def inGrid_def split: option.splits)
  next
    case Null
    with ih p show ?thesis by simp
  next
    case (Num v)
    from isValidMove_total [of "setCell g row col None" "int row" "int col" v] assms
    obtain valid where valid: "isValidMove (setCell g row col None) (int row) (int col) v = Some valid"
      by auto
    have undo: "setCell (setCell g row col None) row col (Some v) = g"
      by (simp add: setCell_overwrite setCell_same_Num [OF Num])
    from ih p Num valid undo show ?thesis by (cases valid) auto
  qed
qed

lemma isValidGridFrom_True:
  assumes "supportedSize (length g)"
  shows "isValidGridFrom g ps = Some (True, g') \<Longrightarrow> (r, c) \<in> set ps \<Longrightarrow>
    readCell g r c = Num v \<Longrightarrow> isValidMove g (int r) (int c) v = Some True"
proof (induction ps)
  case Nil
  then show ?case by simp
next
  case (Cons p ps)
  obtain row col where p: "p = (row, col)" by (cases p)
  show ?case
  proof (cases "readCell g row col")
    case Undefined
    with Cons.prems(1) p show ?thesis by simp
  next
    case Null
    with Cons p show ?thesis by auto
  next
    case (Num w)
    have undo: "setCell (setCell g row col None) row col (Some w) = g"
      by (simp add: setCell_overwrite setCell_same_Num [OF Num])
    from Cons.prems(1) p Num undo
    have h1: "isValidMove g (int row) (int col) w = Some True"
      and h2: "isValidGridFrom g ps = Some (True, g')"
      by (auto simp: bind_eq_Some_conv isValidMove_own_cell split: if_splits)
    show ?thesis
    proof (cases "(r, c) = (row, col)")
      case True
      with Num Cons.prems(3) h1 show ?thesis by simp
    next
      case False
      with Cons.prems(2) p have "(r, c) \<in> set ps" by auto
      from Cons.IH [OF h2 this Cons.prems(3)] show ?thesis .
    qed
  qed
qed

text \<open>C10. For every well-formed grid (square, of a supported size) \<open>isValidGrid\<close> returns
  with the grid in exactly its original state, whether it returns \<open>true\<close> or, early,
  \<open>false\<close>: each cell it empties for the scan is restored before the next step.\<close>

theorem isValidGrid_restores:
  "wfGrid g \<Longrightarrow> \<exists>b. isValidGrid g = Some (b, g)"
  unfolding isValidGrid_def
  by (rule isValidGridFrom_restores)
     (auto simp: wfGrid_def set_allPositions intro: wfGrid_inGrid)

theorem isValidGrid_restores_witness:
  "wfGrid gridDuplicate \<and> isValidGrid gridDuplicate = Some (False, gridDuplicate)"
proof -
  have wf: "wfGrid gridDuplicate"
    by (simp add: wfGrid_def supportedSize_def gridDuplicate_def)
  have res: "fst (the (isValidGrid gridDuplicate)) = False"
    unfolding gridDuplicate_def by code_simp
  from isValidGrid_restores [OF wf] res wf show ?thesis by auto
qed

text \<open>C6 (as amended). In a grid of a supported size that \<open>isValidGrid\<close> accepts, placing
  into a filled cell the value it already holds is a valid move: the cell's own position
  is left out of the three scans (\<open>isValidMove_own_cell\<close>), and no other cell of its row,
  column or box holds the value.\<close>

theorem isValidMove_own_value:
  assumes "supportedSize (length g)" and "isValidGrid g = Some (True, g')"
    and "row < length g" and "col < length g" and "readCell g row col = Num v"
  shows "isValidMove g (int row) (int col) v = Some True"
  using assms isValidGridFrom_True [of g "allPositions (length g)" g' row col v]
  by (simp add: isValidGrid_def set_allPositions)


theorem isValidMove_own_value_witness:
  "supportedSize (length gridUnique) \<and> isValidGrid gridUnique = Some (True, gridUnique)
   \<and> readCell gridUnique 0 1 = Num 2 \<and> isValidMove gridUnique 0 1 2 = Some True"
proof -
  have s: "supportedSize (length gridUnique)"
    by (simp add: supportedSize_def gridUnique_def)
  have v: "isValidGrid gridUnique = Some (True, gridUnique)"
    unfolding gridUnique_def by code_simp
  have c: "readCell gridUnique 0 1 = Num 2"
    unfolding gridUnique_def by code_simp
  have l: "0 < length gridUnique" "1 < length gridUnique"
    by (simp_all add: gridUnique_def)
  from isValidMove_own_value [OF s v l c] s v c show ?thesis by simp
qed

text \<open>C6 as stated fails: in \<open>gridDuplicate\<close> the filled cell (0,0) holds 1, and placing 1
  there is rejected because cell (0,1) holds 1 as well.\<close>

theorem isValidMove_own_value_counterexample:
  "readCell gridDuplicate 0 0 = Num 1 \<and> isValidMove gridDuplicate 0 0 1 = Some False"
  unfolding gridDuplicate_def by code_simp

section \<open>Properties of the classifier and of the random source\<close>

text \<open>C2 fails on the code. In \<open>gridNakedPair\<close> the candidates of cell (0,1) are 3 and 4;
  the move that plays 1 there is classified as a naked pair with confidence 0.85, not as
  a guess with 0.3: cell (0,3) has the same two candidates, and \<open>detectNakedSet\<close> does not
  look at the value played.\<close>

theorem detectStrategy_not_candidate_naked_pair:
  "getCandidates gridNakedPair 0 1 = Some [3, 4]
   \<and> map_option strategy (detectStrategy gridNakedPair 0 1 1) = Some NakedPair
   \<and> map_option confidence (detectStrategy gridNakedPair 0 1 1) = Some 0.85"
  unfolding gridNakedPair_def by code_simp

text \<open>C9 fails on the code for negative seeds: the first number that \<open>seededRandom (-6)\<close>
  yields is \<open>-6509 / 233280\<close>, because \<^verbatim>\<open>%\<close> gives a remainder with the sign of
  \<open>state * 9301 + 49297\<close>; \<open>shuffleArray\<close> then computes the index \<open>-1\<close>.\<close>

theorem seededRandom_negative_seed:
  "fst (random (seededRandom (- 6)) world0) = - (6509 / 233280)
   \<and> fst (random (seededRandom (- 6)) world0) < 0
   \<and> shuffleArray [1, 2, 3, 4 :: int] (seededRandom (- 6)) world0 = None"
  by (simp add: seededRandom_def jsRem_def shuffleArray_def Let_def)

text \<open>From a state that is not negative (a seed that is not negative), the recurrence is
  the one of the linear congruential generator and the number lies in \<open>[0, 1)\<close>.\<close>

lemma random_Seeded_nonneg:
  assumes "0 \<le> state"
  shows "\<exists>state'. random (Seeded state) w = (real_of_int state' / 233280, Seeded state', w)
           \<and> state' = (state * 9301 + 49297) mod 233280 \<and> 0 \<le> state' \<and> state' < 233280"
proof -
  from assms have "0 \<le> state * 9301 + 49297" by simp
  then have "jsRem (state * 9301 + 49297) 233280 = (state * 9301 + 49297) mod 233280"
    by (simp add: jsRem_def sgn_if)
  then show ?thesis by (simp add: Let_def)
qed

section \<open>The solver on a store of row arrays\<close>

text \<open>For the claims about aliasing the grid is not a value but an object: the store is
  the list of all row arrays, an address is an index into it, and a \<^verbatim>\<open>SudokuGrid\<close> is
  the list of the addresses of its rows. Reading is as before, on the contents
  \<open>view h gr\<close>; \<^verbatim>\<open>grid[row][col] = v\<close> updates the row array that \<open>gr ! row\<close> names, and
  with it every grid that shares the array. An address outside the store names no
  array; its row reads as empty.\<close>

type_synonym heap = "row list"
type_synonym gridref = "nat list"

definition rowAt :: "heap \<Rightarrow> nat \<Rightarrow> row" where
  "rowAt h a = (if a < length h then h ! a else [])"

definition view :: "heap \<Rightarrow> gridref \<Rightarrow> grid" where
  "view h gr = map (rowAt h) gr"

definition setCellAt :: "heap \<Rightarrow> gridref \<Rightarrow> nat \<Rightarrow> nat \<Rightarrow> cell \<Rightarrow> heap" where
  "setCellAt h gr r c v = (if r < length gr then h[gr ! r := (h ! (gr ! r))[c := v]] else h)"

text \<open>\<open>cloneGrid\<close> on the store: \<^verbatim>\<open>grid.map(row => [...row])\<close> allocates a new array for
  every row and a new outer array holding their addresses.\<close>

definition cloneGrid_st :: "heap \<Rightarrow> gridref \<Rightarrow> heap \<times> gridref" where
  "cloneGrid_st h gr = (h @ map (rowAt h) gr, [length h..<length h + length gr])"

function solve_st :: "heap \<Rightarrow> gridref \<Rightarrow> (bool \<times> heap) option"
  and solveLoop_st :: "heap \<Rightarrow> gridref \<Rightarrow> nat \<Rightarrow> nat \<Rightarrow> nat \<Rightarrow> nat \<Rightarrow> (bool \<times> heap) option"
where
  "solve_st h gr =
     do {
       emptyCell \<leftarrow> findEmptyCell (view h gr);
       case emptyCell of
         None \<Rightarrow> Some (True, h)
       | Some (row, col) \<Rightarrow> solveLoop_st h gr row col (length gr) 1
     }"
| "solveLoop_st h gr row col gridSize num =
     (if num \<le> gridSize then
        do {
          ok \<leftarrow> isValidMove (view h gr) (int row) (int col) (int num);
          if ok then
            do {
              (solved, h') \<leftarrow> solve_st (setCellAt h gr row col (Some (int num))) gr;
              if solved then Some (True, h')
              else solveLoop_st (setCellAt h' gr row col None) gr row col gridSize (num + 1)
            }
          else solveLoop_st h gr row col gridSize (num + 1)
        }
      else Some (False, h))"
  by pat_completeness auto

definition inStore :: "heap \<Rightarrow> gridref \<Rightarrow> nat \<Rightarrow> nat \<Rightarrow> bool" where
  "inStore h gr r c = (r < length gr \<and> gr ! r < length h \<and> c < length (h ! (gr ! r)))"

lemma length_setCellAt [simp]: "length (setCellAt h gr r c v) = length h"
  by (simp add: setCellAt_def)

lemma length_view [simp]: "length (view h gr) = length gr"
  by (simp add: view_def)

lemma setCellAt_overwrite:
  "setCellAt (setCellAt h gr r c x) gr r c y = setCellAt h gr r c y"
  by (cases "gr ! r < length h") (simp_all add: setCellAt_def list_update_beyond)

lemma setCellAt_outside: "\<not> inStore h gr r c \<Longrightarrow> setCellAt h gr r c v = h"
  by (cases "gr ! r < length h") (auto simp: setCellAt_def inStore_def list_update_beyond)

lemma inStore_setCellAt [simp]: "inStore (setCellAt h gr r c v) gr r' c' = inStore h gr r' c'"
  by (cases "gr ! r' = gr ! r"; cases "gr ! r < length h")
     (auto simp: inStore_def setCellAt_def)

lemma rowAt_setCellAt:
  "inStore h gr r c \<Longrightarrow>
     rowAt (setCellAt h gr r c v) a = (if a = gr ! r then (h ! (gr ! r))[c := v] else rowAt h a)"
  by (auto simp: rowAt_def setCellAt_def inStore_def)

lemma readCell_view_Null:
  "readCell (view h gr) r c = Null \<Longrightarrow> inStore h gr r c \<and> h ! (gr ! r) ! c = None"
  by (auto simp: readCell_def view_def rowAt_def inStore_def split: if_splits option.splits)

lemma setCellAt_same: "readCell (view h gr) r c = Null \<Longrightarrow> setCellAt h gr r c None = h"
proof -
  assume "readCell (view h gr) r c = Null"
  from readCell_view_Null [OF this]
  have "(h ! (gr ! r))[c := None] = h ! (gr ! r)" by (metis list_update_id)
  then show ?thesis by (simp add: setCellAt_def)
qed

lemma sum_list_less_one:
  fixes f g :: "'a \<Rightarrow> nat"
  shows "(\<And>x. x \<in> set xs \<Longrightarrow> f x \<le> g x) \<Longrightarrow> a \<in> set xs \<Longrightarrow> f a < g a \<Longrightarrow>
    sum_list (map f xs) < sum_list (map g xs)"
proof (induction xs)
  case Nil
  then show ?case by simp
next
  case (Cons x xs)
  have le: "sum_list (map f xs) \<le> sum_list (map g xs)"
    by (rule sum_list_mono) (simp add: Cons.prems(1))
  show ?case
  proof (cases "a = x")
    case True
    with le Cons.prems(3) show ?thesis by simp
  next
    case False
    with Cons.prems(2) have "a \<in> set xs" by simp
    have "sum_list (map f xs) < sum_list (map g xs)"
      by (rule Cons.IH [OF _ \<open>a \<in> set xs\<close> Cons.prems(3)]) (simp add: Cons.prems(1))
    with Cons.prems(1) [of x] show ?thesis by (simp add: add_le_less_mono)
  qed
qed

lemma nulls_setCellAt:
  assumes "inStore h gr r c"
  shows "nulls (view (setCellAt h gr r c (Some v)) gr) < nulls (view (setCellAt h gr r c None) gr)"
proof -
  let ?f = "\<lambda>x a. count_list (rowAt (setCellAt h gr r c x) a) None"
  from assms have c: "c < length (h ! (gr ! r))" and r: "gr ! r \<in> set gr"
    by (auto simp: inStore_def)
  have "sum_list (map (?f (Some v)) gr) < sum_list (map (?f None) gr)"
  proof (rule sum_list_less_one [where a = "gr ! r"])
    fix a show "?f (Some v) a \<le> ?f None a"
      using count_list_update_None [OF c, of v] by (simp add: rowAt_setCellAt [OF assms])
  next
    show "gr ! r \<in> set gr" by (rule r)
  next
    show "?f (Some v) (gr ! r) < ?f None (gr ! r)"
      using count_list_update_None [OF c, of v] by (simp add: rowAt_setCellAt [OF assms])
  qed
  then show ?thesis by (simp add: nulls_def view_def comp_def)
qed

lemma solve_st_restores_p:
  "solve_st_solveLoop_st_dom (Inl (h, gr)) \<Longrightarrow> solve_st h gr = Some (False, h') \<Longrightarrow> h' = h"
  "solve_st_solveLoop_st_dom (Inr (h, gr, row, col, n, num)) \<Longrightarrow>
     solveLoop_st h gr row col n num = Some (False, h') \<Longrightarrow>
     h' = h \<or> h' = setCellAt h gr row col None"
proof (induction h gr and h gr row col n num arbitrary: h' and h'
    rule: solve_st_solveLoop_st.pinduct)
  case (1 h gr)
  note ps = solve_st.psimps [OF 1(1)]
  from 1(3) obtain cell where cell: "findEmptyCell (view h gr) = Some cell"
    by (auto simp: ps bind_eq_Some_conv)
  show ?case
  proof (cases cell)
    case None
    with 1(3) cell show ?thesis by (simp add: ps)
  next
    case (Some p)
    obtain r c where p: "p = (r, c)" by (cases p)
    from 1(3) cell Some p have "solveLoop_st h gr r c (length gr) 1 = Some (False, h')"
      by (simp add: ps)
    from 1(2) [OF cell Some p [symmetric] this] findEmptyCell_Null [of "view h gr" r c] cell Some p
    show ?thesis by (auto dest: setCellAt_same)
  qed
next
  case (2 h gr row col gridSize num)
  note ps = solveLoop_st.psimps [OF 2(1)]
  show ?case
  proof (cases "num \<le> gridSize")
    case False
    with 2 show ?thesis by (simp add: ps)
  next
    case le: True
    from 2(5) le obtain ok where
      ok: "isValidMove (view h gr) (int row) (int col) (int num) = Some ok"
      by (auto simp: ps bind_eq_Some_conv)
    show ?thesis
    proof (cases ok)
      case False
      with 2(5) le ok have "solveLoop_st h gr row col gridSize (num + 1) = Some (False, h')"
        by (simp add: ps)
      with 2(4) [OF le ok False] show ?thesis by simp
    next
      case True
      with 2(5) le ok obtain s h1 where
        s: "solve_st (setCellAt h gr row col (Some (int num))) gr = Some (s, h1)"
        and rest: "(if s then Some (True, h1)
                    else solveLoop_st (setCellAt h1 gr row col None) gr row col gridSize (num + 1))
                   = Some (False, h')"
        by (auto simp: ps bind_eq_Some_conv)
      from rest have ns: "\<not> s" by (auto split: if_splits)
      with s 2(2) [OF le ok True] have h1: "h1 = setCellAt h gr row col (Some (int num))"
        by simp
      from rest ns
      have "solveLoop_st (setCellAt h1 gr row col None) gr row col gridSize (num + 1)
            = Some (False, h')" by simp
      from 2(3) [OF le ok True s refl ns this]
      show ?thesis by (simp add: h1 setCellAt_overwrite)
    qed
  qed
qed

lemma solve_st_dom_total: "All solve_st_solveLoop_st_dom"
proof (rule "solve_st_solveLoop_st.termination"
    [of "measures [case_sum (\<lambda>(h, gr). nulls (view h gr))
           (\<lambda>(h, gr, r, c, n, num).
              if inStore h gr r c then nulls (view (setCellAt h gr r c None) gr)
              else nulls (view h gr) + 1),
         case_sum (\<lambda>x. 1) (\<lambda>x. 0),
         case_sum (\<lambda>x. 0) (\<lambda>(h, gr, r, c, n, num). n + 1 - num)]"], goal_cases)
  case 1
  show ?case by simp
next
  case (2 h gr cell p r c)
  then have "readCell (view h gr) r c = Null" by (auto dest: findEmptyCell_Null)
  then show ?case by (auto simp: setCellAt_same dest: readCell_view_Null)
next
  case (3 h gr row col gridSize num ok)
  then show ?case
    using nulls_setCellAt [of h gr row col "int num"] by (auto simp: setCellAt_outside)
next
  case (4 h gr row col gridSize num ok res s h1)
  then have "h1 = setCellAt h gr row col (Some (int num))"
    using solve_st_restores_p(1) [of "setCellAt h gr row col (Some (int num))" gr h1] by auto
  with 4 show ?case by (auto simp: setCellAt_overwrite setCellAt_outside)
next
  case (5 h gr row col gridSize num ok)
  then show ?case by auto
qed

termination solve_st
  by (rule solve_st_dom_total)

text \<open>The two counting searches on the store. A solution found is recorded by its
  contents: the clone that \<open>solutions.push(cloneGrid(g))\<close> allocates is never written
  again.\<close>

function findSolutions_st :: "heap \<Rightarrow> gridref \<Rightarrow> grid list \<Rightarrow> nat \<Rightarrow> (heap \<times> grid list) option"
  and findSolutionsLoop_st ::
    "heap \<Rightarrow> gridref \<Rightarrow> grid list \<Rightarrow> nat \<Rightarrow> nat \<Rightarrow> nat \<Rightarrow> nat \<Rightarrow> nat
      \<Rightarrow> (heap \<times> grid list) option"
where
  "findSolutions_st h gr solutions maxSolutions =
     (if length solutions \<ge> maxSolutions then Some (h, solutions)
      else do {
        emptyCell \<leftarrow> findEmptyCell (view h gr);
        case emptyCell of
          None \<Rightarrow> Some (h, solutions @ [cloneGrid (view h gr)])
        | Some (row, col) \<Rightarrow> findSolutionsLoop_st h gr solutions maxSolutions row col (length gr) 1
      })"
| "findSolutionsLoop_st h gr solutions maxSolutions row col gridSize num =
     (if num \<le> gridSize then
        do {
          ok \<leftarrow> isValidMove (view h gr) (int row) (int col) (int num);
          if ok then
            do {
              (h', solutions') \<leftarrow>
                findSolutions_st (setCellAt h gr row col (Some (int num))) gr solutions maxSolutions;
              let h'' = setCellAt h' gr row col None;
              if length solutions' \<ge> maxSolutions then Some (h'', solutions')
              else findSolutionsLoop_st h'' gr solutions' maxSolutions row col gridSize (num + 1)
            }
          else findSolutionsLoop_st h gr solutions maxSolutions row col gridSize (num + 1)
        }
      else Some (h, solutions))"
  by pat_completeness auto

lemma findSolutions_st_restores_p:
  "findSolutions_st_findSolutionsLoop_st_dom (Inl (h, gr, sols, m)) \<Longrightarrow>
     findSolutions_st h gr sols m = Some (h', sols') \<Longrightarrow> h' = h"
  "findSolutions_st_findSolutionsLoop_st_dom (Inr (h, gr, sols, m, row, col, n, num)) \<Longrightarrow>
     findSolutionsLoop_st h gr sols m row col n num = Some (h', sols') \<Longrightarrow>
     h' = h \<or> h' = setCellAt h gr row col None"
proof (induction h gr sols m and h gr sols m row col n num arbitrary: h' sols' and h' sols'
    rule: findSolutions_st_findSolutionsLoop_st.pinduct)
  case (1 h gr sols m)
  note ps = findSolutions_st.psimps [OF 1(1)]
  show ?case
  proof (cases "m \<le> length sols")
    case True
    with 1(3) show ?thesis by (simp add: ps)
  next
    case False
    with 1(3) obtain cell where cell: "findEmptyCell (view h gr) = Some cell"
      by (auto simp: ps bind_eq_Some_conv)
    show ?thesis
    proof (cases cell)
      case None
      with 1(3) cell False show ?thesis by (simp add: ps)
    next
      case (Some p)
      obtain r c where p: "p = (r, c)" by (cases p)
      from 1(3) cell Some p False
      have "findSolutionsLoop_st h gr sols m r c (length gr) 1 = Some (h', sols')"
        by (simp add: ps)
      from 1(2) [OF _ cell Some p [symmetric] this] False
        findEmptyCell_Null [of "view h gr" r c] cell Some p
      show ?thesis by (auto dest: setCellAt_same)
    qed
  qed
next
  case (2 h gr sols m row col gridSize num)
  note ps = findSolutionsLoop_st.psimps [OF 2(1)]
  show ?case
  proof (cases "num \<le> gridSize")
    case False
    with 2 show ?thesis by (simp add: ps)
  next
    case le: True
    from 2(5) le obtain ok where ok: "isValidMove (view h gr) (int row) (int col) (int num) = Some ok"
      by (auto simp: ps bind_eq_Some_conv)
    show ?thesis
    proof (cases ok)
      case False
      with 2(5) le ok
      have "findSolutionsLoop_st h gr sols m row col gridSize (num + 1) = Some (h', sols')"
        by (simp add: ps)
      with 2(4) [OF le ok False] show ?thesis by simp
    next
      case True
      with 2(5) le ok obtain h1 s1 where
        inner: "findSolutions_st (setCellAt h gr row col (Some (int num))) gr sols m = Some (h1, s1)"
        and rest: "(if m \<le> length s1 then Some (setCellAt h1 gr row col None, s1)
                    else findSolutionsLoop_st (setCellAt h1 gr row col None) gr s1 m row col gridSize (num + 1))
                   = Some (h', sols')"
        by (auto simp: ps bind_eq_Some_conv Let_def)
      from inner 2(2) [OF le ok True] have h1: "h1 = setCellAt h gr row col (Some (int num))"
        by simp
      show ?thesis
      proof (cases "m \<le> length s1")
        case True
        with rest show ?thesis by (simp add: h1 setCellAt_overwrite)
      next
        case False
        with rest have "findSolutionsLoop_st (setCellAt h1 gr row col None) gr s1 m row col gridSize (num + 1)
                        = Some (h', sols')" by simp
        from 2(3) [OF le ok True inner refl refl _ this] False
        show ?thesis by (simp add: h1 setCellAt_overwrite)
      qed
    qed
  qed
qed

lemma findSolutions_st_dom_total: "All findSolutions_st_findSolutionsLoop_st_dom"
proof (rule "findSolutions_st_findSolutionsLoop_st.termination"
    [of "measures [case_sum (\<lambda>(h, gr, s, m). nulls (view h gr))
           (\<lambda>(h, gr, s, m, r, c, n, num).
              if inStore h gr r c then nulls (view (setCellAt h gr r c None) gr)
              else nulls (view h gr) + 1),
         case_sum (\<lambda>x. 1) (\<lambda>x. 0),
         case_sum (\<lambda>x. 0) (\<lambda>(h, gr, s, m, r, c, n, num). n + 1 - num)]"], goal_cases)
  case 1
  show ?case by simp
next
  case (2 h gr sols m cell p r c)
  then have "readCell (view h gr) r c = Null" by (auto dest: findEmptyCell_Null)
  then show ?case by (auto simp: setCellAt_same dest: readCell_view_Null)
next
  case (3 h gr sols m row col gridSize num ok)
  then show ?case using nulls_setCellAt [of h gr row col "int num"] by (auto simp: setCellAt_outside)
next
  case (4 h gr sols m row col gridSize num ok res h1 s1 h2)
  then have "h1 = setCellAt h gr row col (Some (int num))"
    using findSolutions_st_restores_p(1) [of "setCellAt h gr row col (Some (int num))" gr sols m h1 s1]
    by auto
  with 4 show ?case by (auto simp: setCellAt_overwrite setCellAt_outside)
next
  case (5 h gr sols m row col gridSize num ok)
  then show ?case by auto
qed

termination findSolutions_st
  by (rule findSolutions_st_dom_total)


function countSolutionsRecursive_st :: "heap \<Rightarrow> gridref \<Rightarrow> nat \<Rightarrow> nat \<Rightarrow> (heap \<times> nat) option"
  and countSolutionsLoop_st ::
    "heap \<Rightarrow> gridref \<Rightarrow> nat \<Rightarrow> nat \<Rightarrow> nat \<Rightarrow> nat \<Rightarrow> nat \<Rightarrow> nat
      \<Rightarrow> (heap \<times> nat) option"
where
  "countSolutionsRecursive_st h gr count mx =
     (if count \<ge> mx then Some (h, count)
      else do {
        emptyCell \<leftarrow> findEmptyCell (view h gr);
        case emptyCell of
          None \<Rightarrow> Some (h, count + 1)
        | Some (row, col) \<Rightarrow> countSolutionsLoop_st h gr count mx row col (length gr) 1
      })"
| "countSolutionsLoop_st h gr count mx row col gridSize num =
     (if num \<le> gridSize then
        do {
          ok \<leftarrow> isValidMove (view h gr) (int row) (int col) (int num);
          if ok then
            do {
              (h', count') \<leftarrow>
                countSolutionsRecursive_st (setCellAt h gr row col (Some (int num))) gr count mx;
              let h'' = setCellAt h' gr row col None;
              if count' \<ge> mx then Some (h'', count')
              else countSolutionsLoop_st h'' gr count' mx row col gridSize (num + 1)
            }
          else countSolutionsLoop_st h gr count mx row col gridSize (num + 1)
        }
      else Some (h, count))"
  by pat_completeness auto

lemma countSolutionsRecursive_st_restores_p:
  "countSolutionsRecursive_st_countSolutionsLoop_st_dom (Inl (h, gr, sols, m)) \<Longrightarrow>
     countSolutionsRecursive_st h gr sols m = Some (h', sols') \<Longrightarrow> h' = h"
  "countSolutionsRecursive_st_countSolutionsLoop_st_dom (Inr (h, gr, sols, m, row, col, n, num)) \<Longrightarrow>
     countSolutionsLoop_st h gr sols m row col n num = Some (h', sols') \<Longrightarrow>
     h' = h \<or> h' = setCellAt h gr row col None"
proof (induction h gr sols m and h gr sols m row col n num arbitrary: h' sols' and h' sols'
    rule: countSolutionsRecursive_st_countSolutionsLoop_st.pinduct)
  case (1 h gr sols m)
  note ps = countSolutionsRecursive_st.psimps [OF 1(1)]
  show ?case
  proof (cases "m \<le> sols")
    case True
    with 1(3) show ?thesis by (simp add: ps)
  next
    case False
    with 1(3) obtain cell where cell: "findEmptyCell (view h gr) = Some cell"
      by (auto simp: ps bind_eq_Some_conv)
    show ?thesis
    proof (cases cell)
      case None
      with 1(3) cell False show ?thesis by (simp add: ps)
    next
      case (Some p)
      obtain r c where p: "p = (r, c)" by (cases p)
      from 1(3) cell Some p False
      have "countSolutionsLoop_st h gr sols m r c (length gr) 1 = Some (h', sols')"
        by (simp add: ps)
      from 1(2) [OF _ cell Some p [symmetric] this] False
        findEmptyCell_Null [of "view h gr" r c] cell Some p
      show ?thesis by (auto dest: setCellAt_same)
    qed
  qed
next
  case (2 h gr sols m row col gridSize num)
  note ps = countSolutionsLoop_st.psimps [OF 2(1)]
  show ?case
  proof (cases "num \<le> gridSize")
    case False
    with 2 show ?thesis by (simp add: ps)
  next
    case le: True
    from 2(5) le obtain ok where ok: "isValidMove (view h gr) (int row) (int col) (int num) = Some ok"
      by (auto simp: ps bind_eq_Some_conv)
    show ?thesis
    proof (cases ok)
      case False
      with 2(5) le ok
      have "countSolutionsLoop_st h gr sols m row col gridSize (num + 1) = Some (h', sols')"
        by (simp add: ps)
      with 2(4) [OF le ok False] show ?thesis by simp
    next
      case True
      with 2(5) le ok obtain h1 s1 where
        inner: "countSolutionsRecursive_st (setCellAt h gr row col (Some (int num))) gr sols m = Some (h1, s1)"
        and rest: "(if m \<le> s1 then Some (setCellAt h1 gr row col None, s1)
                    else countSolutionsLoop_st (setCellAt h1 gr row col None) gr s1 m row col gridSize (num + 1))
                   = Some (h', sols')"
        by (auto simp: ps bind_eq_Some_conv Let_def)
      from inner 2(2) [OF le ok True] have h1: "h1 = setCellAt h gr row col (Some (int num))"
        by simp
      show ?thesis
      proof (cases "m \<le> s1")
        case True
        with rest show ?thesis by (simp add: h1 setCellAt_overwrite)
      next
        case False
        with rest have "countSolutionsLoop_st (setCellAt h1 gr row col None) gr s1 m row col gridSize (num + 1)
                        = Some (h', sols')" by simp
        from 2(3) [OF le ok True inner refl refl _ this] False
        show ?thesis by (simp add: h1 setCellAt_overwrite)
      qed
    qed
  qed
qed

lemma countSolutionsRecursive_st_dom_total: "All countSolutionsRecursive_st_countSolutionsLoop_st_dom"
proof (rule "countSolutionsRecursive_st_countSolutionsLoop_st.termination"
    [of "measures [case_sum (\<lambda>(h, gr, s, m). nulls (view h gr))
           (\<lambda>(h, gr, s, m, r, c, n, num).
              if inStore h gr r c then nulls (view (setCellAt h gr r c None) gr)
              else nulls (view h gr) + 1),
         case_sum (\<lambda>x. 1) (\<lambda>x. 0),
         case_sum (\<lambda>x. 0) (\<lambda>(h, gr, s, m, r, c, n, num). n + 1 - num)]"], goal_cases)
  case 1
  show ?case by simp
next
  case (2 h gr sols m cell p r c)
  then have "readCell (view h gr) r c = Null" by (auto dest: findEmptyCell_Null)
  then show ?case by (auto simp: setCellAt_same dest: readCell_view_Null)
next
  case (3 h gr sols m row col gridSize num ok)
  then show ?case using nulls_setCellAt [of h gr row col "int num"] by (auto simp: setCellAt_outside)
next
  case (4 h gr sols m row col gridSize num ok res h1 s1 h2)
  then have "h1 = setCellAt h gr row col (Some (int num))"
    using countSolutionsRecursive_st_restores_p(1) [of "setCellAt h gr row col (Some (int num))" gr sols m h1 s1]
    by auto
  with 4 show ?case by (auto simp: setCellAt_overwrite setCellAt_outside)
next
  case (5 h gr sols m row col gridSize num ok)
  then show ?case by auto
qed

termination countSolutionsRecursive_st
  by (rule countSolutionsRecursive_st_dom_total)

declare solve_st.simps [simp del] solveLoop_st.simps [simp del]
declare findSolutions_st.simps [simp del] findSolutionsLoop_st.simps [simp del]
declare countSolutionsRecursive_st.simps [simp del] countSolutionsLoop_st.simps [simp del]

text \<open>The four operations that take a private copy, on the store: the second component
  of a result is the store after the call.\<close>

definition getSolution_st :: "heap \<Rightarrow> gridref \<Rightarrow> (gridref option \<times> heap) option" where
  "getSolution_st h gr =
     (case cloneGrid_st h gr of (h1, gridCopy) \<Rightarrow>
        do {
          (solved, h2) \<leftarrow> solve_st h1 gridCopy;
          Some (if solved then Some gridCopy else None, h2)
        })"

definition hasUniqueSolution_st :: "heap \<Rightarrow> gridref \<Rightarrow> (bool \<times> heap) option" where
  "hasUniqueSolution_st h gr =
     (case cloneGrid_st h gr of (h1, gridCopy) \<Rightarrow>
        do {
          (h2, solutions) \<leftarrow> findSolutions_st h1 gridCopy [] 2;
          Some (length solutions = 1, h2)
        })"

definition countSolutions_st :: "heap \<Rightarrow> gridref \<Rightarrow> nat \<Rightarrow> (nat \<times> heap) option" where
  "countSolutions_st h gr mx =
     (case cloneGrid_st h gr of (h1, gridCopy) \<Rightarrow>
        do {
          (h2, count) \<leftarrow> countSolutionsRecursive_st h1 gridCopy 0 mx;
          Some (count, h2)
        })"

definition getHint_st :: "heap \<Rightarrow> gridref \<Rightarrow> ((nat \<times> nat \<times> int) option \<times> heap) option" where
  "getHint_st h gr =
     do {
       emptyCell \<leftarrow> findEmptyCell (view h gr);
       case emptyCell of
         None \<Rightarrow> Some (None, h)
       | Some (row, col) \<Rightarrow>
           do {
             candidates \<leftarrow> getCandidates (view h gr) (int row) (int col);
             if length candidates = 0 then Some (None, h)
             else
               (case cloneGrid_st h gr of (h1, gridCopy) \<Rightarrow>
                  do {
                    (solved, h2) \<leftarrow> solve_st h1 gridCopy;
                    if solved then
                      (case readCell (view h2 gridCopy) row col of
                         Num v \<Rightarrow> Some (Some (row, col, v), h2)
                       | Null \<Rightarrow> Some (None, h2)
                       | Undefined \<Rightarrow> None)
                    else Some (None, h2)
                  })
           }
     }"

text \<open>\<open>frame gr h h'\<close>: the store \<open>h'\<close> differs from \<open>h\<close> at most in the rows of \<open>gr\<close>.\<close>

definition frame :: "gridref \<Rightarrow> heap \<Rightarrow> heap \<Rightarrow> bool" where
  "frame gr h h' = (length h' = length h \<and> (\<forall>a. a \<notin> set gr \<longrightarrow> h' ! a = h ! a))"

lemma frame_refl [simp]: "frame gr h h"
  by (simp add: frame_def)

lemma frame_trans: "frame gr h h1 \<Longrightarrow> frame gr h1 h2 \<Longrightarrow> frame gr h h2"
  by (simp add: frame_def)

lemma frame_setCellAt [simp]: "frame gr h (setCellAt h gr r c v)"
proof -
  have "h[gr ! r := x] ! a = h ! a" if "r < length gr" "a \<notin> set gr" for a x
  proof -
    from that have "a \<noteq> gr ! r" by (metis nth_mem)
    then show ?thesis by simp
  qed
  then show ?thesis by (simp add: frame_def setCellAt_def)
qed

lemma solve_st_frame:
  "solve_st h gr = Some (b, h') \<Longrightarrow> frame gr h h'"
  "solveLoop_st h gr row col n num = Some (b, h') \<Longrightarrow> frame gr h h'"
proof (induction h gr and h gr row col n num arbitrary: b h' and b h'
    rule: solve_st_solveLoop_st.induct)
  case (1 h gr)
  note ss = solve_st.simps [of h gr]
  from 1(2) obtain cell where cell: "findEmptyCell (view h gr) = Some cell"
    by (auto simp: ss bind_eq_Some_conv)
  show ?case
  proof (cases cell)
    case None
    with 1(2) cell show ?thesis by (simp add: ss)
  next
    case (Some p)
    obtain r c where p: "p = (r, c)" by (cases p)
    from 1(2) cell Some p have "solveLoop_st h gr r c (length gr) 1 = Some (b, h')"
      by (simp add: ss)
    from 1(1) [OF cell Some p [symmetric] this] show ?thesis .
  qed
next
  case (2 h gr row col gridSize num)
  note ss = solveLoop_st.simps [of h gr row col gridSize num]
  show ?case
  proof (cases "num \<le> gridSize")
    case False
    with 2(4) show ?thesis by (simp add: ss)
  next
    case le: True
    from 2(4) le obtain ok where
      ok: "isValidMove (view h gr) (int row) (int col) (int num) = Some ok"
      by (auto simp: ss bind_eq_Some_conv)
    show ?thesis
    proof (cases ok)
      case False
      with 2(4) le ok have "solveLoop_st h gr row col gridSize (num + 1) = Some (b, h')"
        by (simp add: ss)
      from 2(3) [OF le ok False this] show ?thesis .
    next
      case True
      with 2(4) le ok obtain s h1 where
        s: "solve_st (setCellAt h gr row col (Some (int num))) gr = Some (s, h1)"
        and rest: "(if s then Some (True, h1)
                    else solveLoop_st (setCellAt h1 gr row col None) gr row col gridSize (num + 1))
                   = Some (b, h')"
        by (auto simp: ss bind_eq_Some_conv)
      from 2(1) [OF le ok True s] have f1: "frame gr h h1"
        by (rule frame_trans [OF frame_setCellAt])
      show ?thesis
      proof (cases s)
        case True
        with rest f1 show ?thesis by simp
      next
        case False
        with rest
        have "solveLoop_st (setCellAt h1 gr row col None) gr row col gridSize (num + 1)
              = Some (b, h')" by simp
        from 2(2) [OF le ok True s refl False this]
        have "frame gr (setCellAt h1 gr row col None) h'" .
        with f1 show ?thesis
          by (metis frame_trans frame_setCellAt)
      qed
    qed
  qed
qed

lemma findSolutions_st_restores:
  "findSolutions_st h gr sols m = Some (h', sols') \<Longrightarrow> h' = h"
  using findSolutions_st_restores_p(1) findSolutions_st_dom_total by blast

lemma countSolutionsRecursive_st_restores:
  "countSolutionsRecursive_st h gr n m = Some (h', n') \<Longrightarrow> h' = h"
  using countSolutionsRecursive_st_restores_p(1) countSolutionsRecursive_st_dom_total by blast

text \<open>What a store keeps of an earlier store: every array that existed is unchanged.\<close>

definition keeps :: "heap \<Rightarrow> heap \<Rightarrow> bool" where
  "keeps h h' = (take (length h) h' = h)"

lemma frame_clone_keeps:
  assumes "cloneGrid_st h gr = (h1, gridCopy)" and "frame gridCopy h1 h2"
  shows "keeps h h2"
proof -
  from assms(1) have h1: "h1 = h @ map (rowAt h) gr"
    and gc: "gridCopy = [length h..<length h + length gr]"
    by (auto simp: cloneGrid_st_def)
  from assms(2) have len: "length h2 = length h1"
    and same: "\<And>a. a \<notin> set gridCopy \<Longrightarrow> h2 ! a = h1 ! a"
    by (auto simp: frame_def)
  have "take (length h) h2 = take (length h) h1"
  proof (rule nth_equalityI)
    show "length (take (length h) h2) = length (take (length h) h1)" by (simp add: len)
  next
    fix i assume "i < length (take (length h) h2)"
    then have i: "i < length h" by simp
    then have "i \<notin> set gridCopy" by (simp add: gc)
    from same [OF this] i show "take (length h) h2 ! i = take (length h) h1 ! i" by simp
  qed
  with h1 show ?thesis by (simp add: keeps_def)
qed

lemma keeps_view:
  "keeps h h' \<Longrightarrow> list_all (\<lambda>a. a < length h) gr \<Longrightarrow> view h' gr = view h gr"
proof -
  assume k: "keeps h h'" and v: "list_all (\<lambda>a. a < length h) gr"
  from k have len: "length h \<le> length h'"
    by (metis keeps_def length_take min.cobounded2 min.commute)
  have "rowAt h' a = rowAt h a" if "a < length h" for a
  proof -
    from k that have "h' ! a = h ! a" by (metis keeps_def nth_take)
    with that len show ?thesis by (simp add: rowAt_def)
  qed
  with v show ?thesis by (simp add: view_def list_all_iff)
qed


text \<open>C7. Each of \<open>getSolution\<close>, \<open>getHint\<close>, \<open>hasUniqueSolution\<close> and \<open>countSolutions\<close>
  leaves every array that existed before the call as it was, so the caller's grid reads
  cell for cell as before: the search writes only into the rows that \<open>cloneGrid\<close> has
  allocated.\<close>

theorem private_copy_keeps_callers_grid:
  assumes "list_all (\<lambda>a. a < length h) gr"
  shows "(getSolution_st h gr = Some (res1, h1) \<longrightarrow> keeps h h1 \<and> view h1 gr = view h gr)
    \<and> (getHint_st h gr = Some (res2, h2) \<longrightarrow> keeps h h2 \<and> view h2 gr = view h gr)
    \<and> (hasUniqueSolution_st h gr = Some (res3, h3) \<longrightarrow> keeps h h3 \<and> view h3 gr = view h gr)
    \<and> (countSolutions_st h gr mx = Some (res4, h4) \<longrightarrow> keeps h h4 \<and> view h4 gr = view h gr)"
proof -
  obtain hc gridCopy where clone: "cloneGrid_st h gr = (hc, gridCopy)"
    by (cases "cloneGrid_st h gr")
  have k0: "keeps h h" by (simp add: keeps_def)
  have solved: "keeps h h'" if "solve_st hc gridCopy = Some (b, h')" for b h'
    using frame_clone_keeps [OF clone solve_st_frame(1) [OF that]] .
  have found: "keeps h h'" if "findSolutions_st hc gridCopy [] 2 = Some (h', sols)" for h' sols
    using frame_clone_keeps [OF clone, of h'] findSolutions_st_restores [OF that] by simp
  have counted: "keeps h h'" if "countSolutionsRecursive_st hc gridCopy 0 mx = Some (h', n)" for h' n
    using frame_clone_keeps [OF clone, of h'] countSolutionsRecursive_st_restores [OF that] by simp
  have a: "keeps h h1" if "getSolution_st h gr = Some (res1, h1)"
    using that solved by (auto simp: getSolution_st_def clone bind_eq_Some_conv)
  have b: "keeps h h2" if hint: "getHint_st h gr = Some (res2, h2)"
  proof -
    from hint obtain cell where cell: "findEmptyCell (view h gr) = Some cell"
      by (auto simp: getHint_st_def bind_eq_Some_conv)
    show ?thesis
    proof (cases cell)
      case None
      with hint cell k0 show ?thesis by (simp add: getHint_st_def)
    next
      case (Some p)
      obtain row col where p: "p = (row, col)" by (cases p)
      from hint cell Some p obtain cs where
        cs: "getCandidates (view h gr) (int row) (int col) = Some cs"
        by (auto simp: getHint_st_def bind_eq_Some_conv)
      show ?thesis
      proof (cases "cs = []")
        case True
        with hint cell Some p cs k0 show ?thesis by (simp add: getHint_st_def)
      next
        case False
        with hint cell Some p cs obtain s h' where
          s: "solve_st hc gridCopy = Some (s, h')" and h2: "h2 = h'"
          by (auto simp: getHint_st_def clone bind_eq_Some_conv
              split: if_splits jsval.splits)
        from solved [OF s] h2 show ?thesis by simp
      qed
    qed
  qed
  have c: "keeps h h3" if "hasUniqueSolution_st h gr = Some (res3, h3)"
    using that found by (auto simp: hasUniqueSolution_st_def clone bind_eq_Some_conv)
  have d: "keeps h h4" if "countSolutions_st h gr mx = Some (res4, h4)"
    using that counted by (auto simp: countSolutions_st_def clone bind_eq_Some_conv)
  from a b c d keeps_view [OF _ assms] show ?thesis by blast
qed

theorem private_copy_keeps_callers_grid_witness:
  "list_all (\<lambda>a. a < length gridUnique) [0, 1, 2, 3]
   \<and> fst (the (getSolution_st gridUnique [0, 1, 2, 3])) = Some [4, 5, 6, 7]
   \<and> view (snd (the (getSolution_st gridUnique [0, 1, 2, 3]))) [0, 1, 2, 3] = gridUnique
   \<and> fst (the (getHint_st gridUnique [0, 1, 2, 3])) = Some (0, 0, 1)
   \<and> view (snd (the (getHint_st gridUnique [0, 1, 2, 3]))) [0, 1, 2, 3] = gridUnique
   \<and> fst (the (hasUniqueSolution_st gridUnique [0, 1, 2, 3])) = True
   \<and> view (snd (the (hasUniqueSolution_st gridUnique [0, 1, 2, 3]))) [0, 1, 2, 3] = gridUnique
   \<and> fst (the (countSolutions_st gridUnique [0, 1, 2, 3] 2)) = 1
   \<and> view (snd (the (countSolutions_st gridUnique [0, 1, 2, 3] 2))) [0, 1, 2, 3] = gridUnique"
proof -
  let ?gr = "[0, 1, 2, 3] :: nat list"
  have v: "list_all (\<lambda>a. a < length gridUnique) ?gr"
    by (simp add: gridUnique_def)
  have g: "view gridUnique ?gr = gridUnique"
    by (simp add: view_def rowAt_def gridUnique_def)
  have r1: "getSolution_st gridUnique ?gr
            = Some (fst (the (getSolution_st gridUnique ?gr)), snd (the (getSolution_st gridUnique ?gr)))"
    and e1: "fst (the (getSolution_st gridUnique ?gr)) = Some [4, 5, 6, 7]"
    unfolding gridUnique_def by code_simp+
  have r2: "getHint_st gridUnique ?gr
            = Some (fst (the (getHint_st gridUnique ?gr)), snd (the (getHint_st gridUnique ?gr)))"
    and e2: "fst (the (getHint_st gridUnique ?gr)) = Some (0, 0, 1)"
    unfolding gridUnique_def by code_simp+
  have r3: "hasUniqueSolution_st gridUnique ?gr
            = Some (fst (the (hasUniqueSolution_st gridUnique ?gr)),
                    snd (the (hasUniqueSolution_st gridUnique ?gr)))"
    and e3: "fst (the (hasUniqueSolution_st gridUnique ?gr)) = True"
    unfolding gridUnique_def by code_simp+
  have r4: "countSolutions_st gridUnique ?gr 2
            = Some (fst (the (countSolutions_st gridUnique ?gr 2)),
                    snd (the (countSolutions_st gridUnique ?gr 2)))"
    and e4: "fst (the (countSolutions_st gridUnique ?gr 2)) = 1"
    unfolding gridUnique_def by code_simp+
  from private_copy_keeps_callers_grid [OF v,
      of "fst (the (getSolution_st gridUnique ?gr))" "snd (the (getSolution_st gridUnique ?gr))"
         "fst (the (getHint_st gridUnique ?gr))" "snd (the (getHint_st gridUnique ?gr))"
         "fst (the (hasUniqueSolution_st gridUnique ?gr))" "snd (the (hasUniqueSolution_st gridUnique ?gr))"
         2
         "fst (the (countSolutions_st gridUnique ?gr 2))" "snd (the (countSolutions_st gridUnique ?gr 2))"]
    r1 r2 r3 r4 e1 e2 e3 e4 v g
  show ?thesis by simp
qed

text \<open>The search on the store and the search on contents agree, on a grid whose rows
  are distinct arrays of the store.\<close>

lemma map_if_distinct:
  "distinct xs \<Longrightarrow> r < length xs \<Longrightarrow>
     map (\<lambda>a. if a = xs ! r then x else f a) xs = (map f xs)[r := x]"
  by (rule nth_equalityI) (auto simp: nth_list_update nth_eq_iff_index_eq)

lemma view_setCellAt:
  assumes "distinct gr" and "list_all (\<lambda>a. a < length h) gr"
  shows "view (setCellAt h gr r c v) gr = setCell (view h gr) r c v"
proof (cases "r < length gr")
  case False
  then show ?thesis by (simp add: setCellAt_def setCell_def list_update_beyond)
next
  case True
  with assms(2) have a: "gr ! r < length h" by (simp add: list_all_length)
  have "rowAt (h[gr ! r := x]) = (\<lambda>a. if a = gr ! r then x else rowAt h a)" for x
    using a by (auto simp: rowAt_def fun_eq_iff)
  then have "view (h[gr ! r := x]) gr = (view h gr)[r := x]" for x
    using map_if_distinct [OF assms(1) True, of x "rowAt h"] by (simp add: view_def)
  with True a show ?thesis by (simp add: setCellAt_def setCell_def view_def rowAt_def)
qed

lemma solve_st_solve:
  "distinct gr \<Longrightarrow> list_all (\<lambda>a. a < length h) gr \<Longrightarrow>
     map_option (\<lambda>(b, h'). (b, view h' gr)) (solve_st h gr) = solve (view h gr)"
  "distinct gr \<Longrightarrow> list_all (\<lambda>a. a < length h) gr \<Longrightarrow>
     map_option (\<lambda>(b, h'). (b, view h' gr)) (solveLoop_st h gr row col n num)
       = solveLoop (view h gr) row col n num"
proof (induction h gr and h gr row col n num rule: solve_st_solveLoop_st.induct)
  case (1 h gr)
  note ss = solve_st.simps [of h gr] solve.simps [of "view h gr"]
  show ?case
  proof (cases "findEmptyCell (view h gr)")
    case None
    then show ?thesis by (simp add: ss)
  next
    case (Some cell)
    show ?thesis
    proof (cases cell)
      case None
      with Some show ?thesis by (simp add: ss)
    next
      case inner: (Some p)
      obtain r c where p: "p = (r, c)" by (cases p)
      from 1(1) [OF Some inner p [symmetric] 1(2,3)] Some inner p show ?thesis
        by (simp add: ss)
    qed
  qed
next
  case (2 h gr row col n num)
  note ss = solveLoop_st.simps [of h gr row col n num] solveLoop.simps [of "view h gr" row col n num]
  note vs = view_setCellAt [OF 2(4)]
  show ?case
  proof (cases "num \<le> n")
    case False
    then show ?thesis by (simp add: ss)
  next
    case le: True
    show ?thesis
    proof (cases "isValidMove (view h gr) (int row) (int col) (int num)")
      case None
      with le show ?thesis by (simp add: ss)
    next
      case (Some ok)
      show ?thesis
      proof (cases ok)
        case False
        with 2(3) [OF le Some False 2(4,5)] le Some show ?thesis by (simp add: ss)
      next
        case True
        have v1: "list_all (\<lambda>a. a < length (setCellAt h gr row col (Some (int num)))) gr"
          using 2(5) by simp
        note ih1 = 2(1) [OF le Some True 2(4) v1]
        show ?thesis
        proof (cases "solve_st (setCellAt h gr row col (Some (int num))) gr")
          case None
          with ih1 have "solve (setCell (view h gr) row col (Some (int num))) = None"
            by (simp add: vs [OF 2(5)])
          with None le Some True show ?thesis by (simp add: ss)
        next
          case res: (Some a)
          obtain s h1 where a: "a = (s, h1)" by (cases a)
          from ih1 res a
          have c1: "solve (setCell (view h gr) row col (Some (int num))) = Some (s, view h1 gr)"
            by (simp add: vs [OF 2(5)])
          from solve_st_frame(1) [of _ gr s h1] res a 2(5)
          have v2: "list_all (\<lambda>a. a < length h1) gr" by (simp add: frame_def)
          show ?thesis
          proof (cases s)
            case True
            with res a c1 le Some \<open>ok\<close> show ?thesis by (simp add: ss)
          next
            case False
            have v3: "list_all (\<lambda>a. a < length (setCellAt h1 gr row col None)) gr"
              using v2 by simp
            from 2(2) [OF le Some True res a [symmetric] False 2(4) v3]
              res a c1 le Some True False
            show ?thesis by (simp add: ss vs [OF v2])
          qed
        qed
      qed
    qed
  qed
qed

section \<open>The rules of Sudoku as peers and solutions\<close>

text \<open>The cells that share a row, a column or a box with a cell.\<close>

definition peer :: "nat \<Rightarrow> nat \<times> nat \<Rightarrow> nat \<times> nat \<Rightarrow> bool" where
  "peer n p q =
     (q \<noteq> p \<and> fst q < n \<and> snd q < n
      \<and> (fst q = fst p \<or> snd q = snd p
         \<or> (case getBoxDimensions n of
               None \<Rightarrow> False
             | Some (rows, cols) \<Rightarrow>
                 fst q div rows = fst p div rows \<and> snd q div cols = snd p div cols)))"

lemma in_box_iff:
  fixes k :: nat
  assumes "0 < k"
  shows "((r div k) * k \<le> r' \<and> r' < (r div k) * k + k) = (r' div k = r div k)"
proof
  assume "(r div k) * k \<le> r' \<and> r' < (r div k) * k + k"
  then show "r' div k = r div k"
    by (intro div_nat_eqI) (simp_all add: mult.commute)
next
  assume e: "r' div k = r div k"
  have "(r' div k) * k \<le> r'" by simp
  moreover have "r' < (r' div k) * k + k"
    using assms by (metis add.commute dividend_less_div_times mult.commute)
  ultimately show "(r div k) * k \<le> r' \<and> r' < (r div k) * k + k" using e by simp
qed

lemma box_inside:
  fixes k :: nat
  assumes "k dvd n" and "0 < k" and "r < n" and "r' div k = r div k"
  shows "r' < n"
proof -
  from assms(1) obtain m where n: "n = k * m" by (auto simp: dvd_def)
  with assms(2,3) have "r div k < m" by (simp add: less_mult_imp_div_less mult.commute)
  with assms(4) have "r' div k < m" by simp
  with assms(2) n show ?thesis
    by (metis div_less_iff_less_mult mult.commute)
qed

lemma supported_dims:
  assumes "supportedSize n"
  obtains rows cols where "getBoxDimensions n = Some (rows, cols)"
    and "0 < rows" and "0 < cols" and "rows dvd n" and "cols dvd n" and "rows * cols = n"
  using assms by (auto simp: supportedSize_def getBoxDimensions_def)

lemma peer_sym: "peer n p q \<Longrightarrow> fst p < n \<Longrightarrow> snd p < n \<Longrightarrow> peer n q p"
  by (auto simp: peer_def split: option.splits)

lemma isValidMove_iff:
  assumes sup: "supportedSize (length g)" and r: "r < length g" and c: "c < length g"
  shows "isValidMove g (int r) (int c) v =
    Some (1 \<le> v \<and> v \<le> int (length g)
          \<and> (\<forall>q. peer (length g) (r, c) q \<longrightarrow> readCell g (fst q) (snd q) \<noteq> Num v))"
proof -
  let ?n = "length g"
  from sup obtain rows cols where dims: "getBoxDimensions ?n = Some (rows, cols)"
    and pos: "0 < rows" "0 < cols" and dvd: "rows dvd ?n" "cols dvd ?n"
    by (rule supported_dims)
  let ?rowC = "list_ex (\<lambda>c'. int c' \<noteq> int c \<and> readCell g (nat (int r)) c' = Num v) [0..<?n]"
  let ?colC = "list_ex (\<lambda>r'. int r' \<noteq> int r \<and> readCell g r' (nat (int c)) = Num v) [0..<?n]"
  let ?boxC = "list_ex (\<lambda>r'. list_ex (\<lambda>c'. (int r' \<noteq> int r \<or> int c' \<noteq> int c)
                    \<and> readCell g r' c' = Num v)
                  [(nat (int c) div cols) * cols..<(nat (int c) div cols) * cols + cols])
                [(nat (int r) div rows) * rows..<(nat (int r) div rows) * rows + rows]"
  have rowC: "?rowC = (\<exists>c'. c' < ?n \<and> c' \<noteq> c \<and> readCell g r c' = Num v)"
    by (auto simp: list_ex_iff)
  have colC: "?colC = (\<exists>r'. r' < ?n \<and> r' \<noteq> r \<and> readCell g r' c = Num v)"
    by (auto simp: list_ex_iff)
  have boxC: "?boxC = (\<exists>r' c'. r' div rows = r div rows \<and> c' div cols = c div cols
                \<and> (r' \<noteq> r \<or> c' \<noteq> c) \<and> readCell g r' c' = Num v)"
    using in_box_iff [OF pos(1), of r] in_box_iff [OF pos(2), of c]
    by (auto simp: list_ex_iff Bex_def)
  have scan: "(\<not> ?rowC \<and> \<not> ?colC \<and> \<not> ?boxC)
      = (\<forall>q. peer ?n (r, c) q \<longrightarrow> readCell g (fst q) (snd q) \<noteq> Num v)"
  proof
    assume a: "\<not> ?rowC \<and> \<not> ?colC \<and> \<not> ?boxC"
    show "\<forall>q. peer ?n (r, c) q \<longrightarrow> readCell g (fst q) (snd q) \<noteq> Num v"
    proof (intro allI impI)
      fix q assume p: "peer ?n (r, c) q"
      obtain r' c' where q: "q = (r', c')" by (cases q)
      from p q dims a rowC colC boxC show "readCell g (fst q) (snd q) \<noteq> Num v"
        by (auto simp: peer_def)
    qed
  next
    assume a: "\<forall>q. peer ?n (r, c) q \<longrightarrow> readCell g (fst q) (snd q) \<noteq> Num v"
    have 1: "\<not> ?rowC"
    proof
      assume ?rowC
      with rowC obtain c' where "c' < ?n" "c' \<noteq> c" "readCell g r c' = Num v" by auto
      with a [rule_format, of "(r, c')"] r show False by (simp add: peer_def)
    qed
    have 2: "\<not> ?colC"
    proof
      assume ?colC
      with colC obtain r' where "r' < ?n" "r' \<noteq> r" "readCell g r' c = Num v" by auto
      with a [rule_format, of "(r', c)"] c show False by (simp add: peer_def)
    qed
    have 3: "\<not> ?boxC"
    proof
      assume ?boxC
      with boxC obtain r' c' where b: "r' div rows = r div rows" "c' div cols = c div cols"
        "r' \<noteq> r \<or> c' \<noteq> c" "readCell g r' c' = Num v" by auto
      from box_inside [OF dvd(1) pos(1) r b(1)] box_inside [OF dvd(2) pos(2) c b(2)]
      have "r' < ?n" "c' < ?n" .
      with a [rule_format, of "(r', c')"] b dims show False by (auto simp: peer_def)
    qed
    from 1 2 3 show "\<not> ?rowC \<and> \<not> ?colC \<and> \<not> ?boxC" by simp
  qed
  have "isValidMove g (int r) (int c) v =
    (if v < 1 \<or> int ?n < v then Some False
     else if ?rowC then Some False else if ?colC then Some False else Some (\<not> ?boxC))"
    using r c dims by (simp add: isValidMove_def Let_def)
  also have "\<dots> = Some (1 \<le> v \<and> v \<le> int ?n \<and> \<not> ?rowC \<and> \<not> ?colC \<and> \<not> ?boxC)"
    by auto
  finally show ?thesis using scan by simp
qed

text \<open>A solution: a value in \<open>[1, n]\<close> for every cell, different from the value of every
  peer. A grid extends to a solution that agrees with its filled cells. A grid is valid
  when every filled cell passes \<open>isValidMove\<close> with its own value.\<close>

definition isSolution :: "nat \<Rightarrow> (nat \<Rightarrow> nat \<Rightarrow> int) \<Rightarrow> bool" where
  "isSolution n s =
     ((\<forall>r < n. \<forall>c < n. 1 \<le> s r c \<and> s r c \<le> int n)
      \<and> (\<forall>p q. fst p < n \<and> snd p < n \<and> peer n p q \<longrightarrow> s (fst q) (snd q) \<noteq> s (fst p) (snd p)))"

definition extendsTo :: "grid \<Rightarrow> (nat \<Rightarrow> nat \<Rightarrow> int) \<Rightarrow> bool" where
  "extendsTo g s =
     (isSolution (length g) s
      \<and> (\<forall>r < length g. \<forall>c < length g. \<forall>v. readCell g r c = Num v \<longrightarrow> s r c = v))"

definition validGrid :: "grid \<Rightarrow> bool" where
  "validGrid g =
     (\<forall>r < length g. \<forall>c < length g. \<forall>v.
        readCell g r c = Num v \<longrightarrow> isValidMove g (int r) (int c) v = Some True)"

lemma peer_range: "peer n p q \<Longrightarrow> fst q < n \<and> snd q < n"
  by (simp add: peer_def)

lemma extension_move_valid:
  assumes "supportedSize (length g)" and "extendsTo g s" and "r < length g" and "c < length g"
  shows "isValidMove g (int r) (int c) (s r c) = Some True"
proof -
  from assms(2) have sol: "isSolution (length g) s"
    and ext: "\<And>r c v. r < length g \<Longrightarrow> c < length g \<Longrightarrow> readCell g r c = Num v \<Longrightarrow> s r c = v"
    by (auto simp: extendsTo_def)
  from sol assms(3,4) have rng: "1 \<le> s r c" "s r c \<le> int (length g)"
    by (auto simp: isSolution_def)
  have "readCell g (fst q) (snd q) \<noteq> Num (s r c)" if p: "peer (length g) (r, c) q" for q
  proof
    assume "readCell g (fst q) (snd q) = Num (s r c)"
    with ext [of "fst q" "snd q" "s r c"] peer_range [OF p] have "s (fst q) (snd q) = s r c"
      by simp
    moreover from sol p assms(3,4) have "s (fst q) (snd q) \<noteq> s r c"
      unfolding isSolution_def by (metis fst_conv snd_conv)
    ultimately show False by simp
  qed
  with rng show ?thesis by (simp add: isValidMove_iff [OF assms(1,3,4)])
qed

lemma extendsTo_place:
  assumes "extendsTo g s"
  shows "extendsTo (setCell g r c (Some (s r c))) s"
  using assms by (auto simp: extendsTo_def readCell_setCell split: if_splits)

lemma solve_complete:
  "supportedSize (length g) \<Longrightarrow> extendsTo g s \<Longrightarrow> \<exists>g'. solve g = Some (True, g')"
  "supportedSize (length g) \<Longrightarrow> extendsTo g s \<Longrightarrow> readCell g row col = Null \<Longrightarrow>
     row < length g \<Longrightarrow> col < length g \<Longrightarrow> n = length g \<Longrightarrow> int num \<le> s row col \<Longrightarrow>
     \<exists>g'. solveLoop g row col n num = Some (True, g')"
proof (induction g and g row col n num rule: solve_solveLoop.induct)
  case (1 g)
  from findEmptyCell_total [OF 1(2)] obtain cell where cell: "findEmptyCell g = Some cell" ..
  show ?case
  proof (cases cell)
    case None
    with cell show ?thesis by (simp add: solve.simps [of g])
  next
    case (Some p)
    obtain r c where p: "p = (r, c)" by (cases p)
    from cell Some p have fe: "findEmptyCell g = Some (Some (r, c))" by simp
    from findEmptyCell_pos [OF fe] have rng: "r < length g" "c < length g" by auto
    from 1(3) rng have "1 \<le> s r c" by (auto simp: extendsTo_def isSolution_def)
    then have "int 1 \<le> s r c" by simp
    from 1(1) [OF cell Some p [symmetric] 1(2,3) findEmptyCell_Null [OF fe] rng refl this]
      cell Some p
    show ?thesis by (simp add: solve.simps [of g])
  qed
next
  case (2 g row col gridSize num)
  note ss = solveLoop.simps [of g row col gridSize num]
  from 2(5) 2(7,8) have top: "s row col \<le> int (length g)"
    by (auto simp: extendsTo_def isSolution_def)
  with 2(9,10) have le: "num \<le> gridSize" by simp
  from isValidMove_total [OF 2(4)] obtain ok where
    ok: "isValidMove g (int row) (int col) (int num) = Some ok" by blast
  note target = extension_move_valid [OF 2(4,5,7,8)]
  show ?case
  proof (cases ok)
    case False
    with ok target have "int num \<noteq> s row col" by auto
    with 2(10) have nxt: "int (num + 1) \<le> s row col" by simp
    from 2(3) [OF le ok False 2(4,5,6,7,8,9) nxt] le ok False show ?thesis
      by (simp add: ss)
  next
    case True
    let ?g1 = "setCell g row col (Some (int num))"
    from solve_total(1) [of ?g1] 2(4) obtain b g2 where s1: "solve ?g1 = Some (b, g2)"
      by auto
    show ?thesis
    proof (cases b)
      case True
      with s1 le ok \<open>ok\<close> show ?thesis by (simp add: ss)
    next
      case False
      with s1 have g2: "g2 = ?g1" by (simp add: solve_restores)
      have ne: "int num \<noteq> s row col"
      proof
        assume e: "int num = s row col"
        from extendsTo_place [OF 2(5), of row col] e have "extendsTo ?g1 s" by simp
        with 2(1) [OF le ok True] 2(4) have "\<exists>g'. solve ?g1 = Some (True, g')" by simp
        with s1 False show False by simp
      qed
      with 2(10) have nxt: "int (num + 1) \<le> s row col" by simp
      have same: "setCell g2 row col None = g"
        by (simp add: g2 setCell_overwrite setCell_same [OF 2(6)])
      from 2(2) [OF le ok True s1 refl False] same 2(4,5,6,7,8,9) nxt
      have "\<exists>g'. solveLoop g row col gridSize (num + 1) = Some (True, g')" by simp
      with s1 False le ok True same show ?thesis by (simp add: ss)
    qed
  qed
qed

lemma readCell_Num_inGrid: "readCell g r c = Num v \<Longrightarrow> inGrid g r c"
  by (auto simp: readCell_def inGrid_def split: if_splits)

lemma validGrid_place:
  assumes sup: "supportedSize (length g)" and v: "validGrid g"
    and r: "r < length g" and c: "c < length g"
    and ok: "isValidMove g (int r) (int c) x = Some True"
  shows "validGrid (setCell g r c (Some x))"
  unfolding validGrid_def
proof (intro allI impI)
  let ?g = "setCell g r c (Some x)"
  fix r' c' y
  assume r': "r' < length ?g" and c': "c' < length ?g" and y: "readCell ?g r' c' = Num y"
  from r' c' have rr: "r' < length g" and cc: "c' < length g" by simp_all
  from sup have sup': "supportedSize (length ?g)" by simp
  from ok have okx: "1 \<le> x" "x \<le> int (length g)"
    and free: "\<And>q. peer (length g) (r, c) q \<Longrightarrow> readCell g (fst q) (snd q) \<noteq> Num x"
    by (simp_all add: isValidMove_iff [OF sup r c])
  show "isValidMove ?g (int r') (int c') y = Some True"
  proof (cases "(r', c') = (r, c)")
    case True
    with y have "y = x"
      by (auto simp: readCell_setCell split: if_splits dest: readCell_Num_inGrid)
    with True ok show ?thesis by (simp add: isValidMove_own_cell)
  next
    case False
    with y have old: "readCell g r' c' = Num y"
      by (auto simp: readCell_setCell split: if_splits)
    with v rr cc have "isValidMove g (int r') (int c') y = Some True"
      by (simp add: validGrid_def)
    then have oky: "1 \<le> y" "y \<le> int (length g)"
      and freey: "\<And>q. peer (length g) (r', c') q \<Longrightarrow> readCell g (fst q) (snd q) \<noteq> Num y"
      by (simp_all add: isValidMove_iff [OF sup rr cc])
    have "readCell ?g (fst q) (snd q) \<noteq> Num y" if p: "peer (length g) (r', c') q" for q
    proof (cases "q = (r, c)")
      case qe: True
      show ?thesis
      proof
        assume "readCell ?g (fst q) (snd q) = Num y"
        with qe have xy: "y = x"
          by (auto simp: readCell_setCell split: if_splits dest: readCell_Num_inGrid)
        from p qe have "peer (length g) (r', c') (r, c)" by simp
        from peer_sym [OF this] rr cc have "peer (length g) (r, c) (r', c')" by simp
        from free [OF this] old xy show False by simp
      qed
    next
      case qn: False
      then have "readCell ?g (fst q) (snd q) = readCell g (fst q) (snd q)"
        by (cases q) (auto simp: readCell_setCell)
      with freey [OF p] show ?thesis by simp
    qed
    with oky show ?thesis by (simp add: isValidMove_iff [OF sup' r' c'])
  qed
qed

lemma solve_valid:
  "supportedSize (length g) \<Longrightarrow> validGrid g \<Longrightarrow> solve g = Some (True, g') \<Longrightarrow> validGrid g'"
  "supportedSize (length g) \<Longrightarrow> validGrid g \<Longrightarrow> readCell g row col = Null \<Longrightarrow>
     row < length g \<Longrightarrow> col < length g \<Longrightarrow>
     solveLoop g row col n num = Some (True, g') \<Longrightarrow> validGrid g'"
proof (induction g and g row col n num arbitrary: g' and g' rule: solve_solveLoop.induct)
  case (1 g)
  from 1(4) obtain cell where cell: "findEmptyCell g = Some cell"
    by (auto simp: solve.simps [of g] bind_eq_Some_conv)
  show ?case
  proof (cases cell)
    case None
    with 1(3,4) cell show ?thesis by (simp add: solve.simps [of g])
  next
    case (Some p)
    obtain r c where p: "p = (r, c)" by (cases p)
    from cell Some p have fe: "findEmptyCell g = Some (Some (r, c))" by simp
    from findEmptyCell_pos [OF fe] have rng: "r < length g" "c < length g" by auto
    from 1(4) cell Some p have "solveLoop g r c (length g) 1 = Some (True, g')"
      by (simp add: solve.simps [of g])
    from 1(1) [OF cell Some p [symmetric] 1(2,3) findEmptyCell_Null [OF fe] rng this]
    show ?thesis .
  qed
next
  case (2 g row col gridSize num)
  note ss = solveLoop.simps [of g row col gridSize num]
  show ?case
  proof (cases "num \<le> gridSize")
    case False
    with 2(9) show ?thesis by (simp add: ss)
  next
    case le: True
    from 2(9) le obtain ok where ok: "isValidMove g (int row) (int col) (int num) = Some ok"
      by (auto simp: ss bind_eq_Some_conv)
    show ?thesis
    proof (cases ok)
      case False
      with 2(9) le ok have "solveLoop g row col gridSize (num + 1) = Some (True, g')"
        by (simp add: ss)
      from 2(3) [OF le ok False 2(4,5,6,7,8) this] show ?thesis .
    next
      case True
      let ?g1 = "setCell g row col (Some (int num))"
      from 2(9) le ok True obtain b g2 where s1: "solve ?g1 = Some (b, g2)"
        and rest: "(if b then Some (True, g2)
                    else solveLoop (setCell g2 row col None) row col gridSize (num + 1))
                   = Some (True, g')"
        by (auto simp: ss bind_eq_Some_conv)
      from ok True have v1: "validGrid ?g1"
        using validGrid_place [OF 2(4,5,7,8)] by simp
      show ?thesis
      proof (cases b)
        case True
        with rest s1 2(1) [OF le ok \<open>ok\<close> _ v1] 2(4) show ?thesis by simp
      next
        case False
        with s1 have g2: "g2 = ?g1" by (simp add: solve_restores)
        have same: "setCell g2 row col None = g"
          by (simp add: g2 setCell_overwrite setCell_same [OF 2(6)])
        from rest False same
        have "solveLoop g row col gridSize (num + 1) = Some (True, g')" by simp
        with 2(2) [OF le ok True s1 refl False] same 2(4,5,6,7,8) show ?thesis by simp
      qed
    qed
  qed
qed

section \<open>A solved grid from a permuted first row\<close>

text \<open>Every first row that is a permutation of \<open>1..n\<close> extends to a solution: row \<open>r\<close> is
  the first row rotated by \<open>cols * (r mod rows) + r div rows\<close>.\<close>

definition rotated :: "nat \<Rightarrow> int list \<Rightarrow> nat \<Rightarrow> nat \<Rightarrow> int" where
  "rotated n numbers r c =
     (case getBoxDimensions n of
        None \<Rightarrow> 0
      | Some (rows, cols) \<Rightarrow> numbers ! ((cols * (r mod rows) + r div rows + c) mod n))"

lemma add_mod_inj:
  fixes a b k n :: nat
  assumes "a < n" and "b < n" and "(a + k) mod n = (b + k) mod n"
  shows "a = b"
proof -
  have aux: "x = y" if "x \<le> y" "y < n" "(x + k) mod n = (y + k) mod n" for x y :: nat
  proof -
    from that(1) have "x + k \<le> y + k" by simp
    from mod_eq_dvd_iff_nat [OF this, of n] that(3) have "n dvd y - x" by simp
    moreover from that(2) have "y - x < n" by simp
    ultimately have "y - x = 0" by (meson dvd_imp_le less_le_not_le neq0_conv)
    with that(1) show ?thesis by simp
  qed
  show ?thesis
  proof (cases "a \<le> b")
    case True
    from aux [OF True assms(2,3)] show ?thesis .
  next
    case False
    then have "b \<le> a" by simp
    from aux [OF this assms(1) assms(3) [symmetric]] show ?thesis by simp
  qed
qed

lemma pair_code_less:
  fixes rows cols :: nat
  assumes "x < rows" and "y < cols"
  shows "cols * x + y < rows * cols"
proof -
  from assms(1) have "Suc x \<le> rows" by simp
  then have "cols * Suc x \<le> cols * rows" by (rule mult_le_mono2)
  with assms(2) show ?thesis by (simp add: mult.commute)
qed

lemma pair_code_inj:
  fixes cols :: nat
  assumes "y < cols" and "y' < cols" and "cols * x + y = cols * x' + y'"
  shows "x = x' \<and> y = y'"
proof -
  from assms have "(cols * x + y) div cols = (cols * x' + y') div cols" by simp
  with assms(1,2) have x: "x = x'" by simp
  with assms(3) show ?thesis by simp
qed

lemma rotated_solution:
  assumes sup: "supportedSize n" and len: "length numbers = n" and dist: "distinct numbers"
    and vals: "set numbers = {1..int n}"
  shows "isSolution n (rotated n numbers)"
proof -
  from sup obtain rows cols where dims: "getBoxDimensions n = Some (rows, cols)"
    and pos: "0 < rows" "0 < cols" and n: "rows * cols = n"
    by (rule supported_dims)
  from pos n have npos: "0 < n" by (metis nat_0_less_mult_iff)
  define ix where "ix r c = (cols * (r mod rows) + r div rows + c) mod n" for r c
  have rot: "rotated n numbers r c = numbers ! ix r c" for r c
    by (simp add: rotated_def dims ix_def)
  have ixn: "ix r c < n" for r c using npos by (simp add: ix_def)
  have divl: "r div rows < cols" if "r < n" for r
  proof -
    from that n have "r < cols * rows" by (simp add: mult.commute)
    then show ?thesis by (rule less_mult_imp_div_less)
  qed
  have rng: "1 \<le> rotated n numbers r c \<and> rotated n numbers r c \<le> int n" for r c
  proof -
    from ixn [of r c] len have "numbers ! ix r c \<in> set numbers" by simp
    with vals show ?thesis by (simp add: rot)
  qed
  have diff: "ix r' c' \<noteq> ix r c"
    if p: "r < n" "c < n" "peer n (r, c) (r', c')" for r c r' c'
  proof
    assume e: "ix r' c' = ix r c"
    from p(3) have q: "r' < n" "c' < n" and ne: "(r', c') \<noteq> (r, c)"
      and rel: "r' = r \<or> c' = c \<or> (r' div rows = r div rows \<and> c' div cols = c div cols)"
      by (auto simp: peer_def dims)
    from rel show False
    proof (elim disjE)
      assume r: "r' = r"
      from e r have "(c' + (cols * (r mod rows) + r div rows)) mod n
                     = (c + (cols * (r mod rows) + r div rows)) mod n"
        by (simp add: ix_def add.commute)
      from add_mod_inj [OF q(2) p(2) this] r ne show False by simp
    next
      assume c: "c' = c"
      let ?sh = "\<lambda>r. cols * (r mod rows) + r div rows"
      have shn: "?sh r < n" if "r < n" for r
        using pair_code_less [of "r mod rows" rows "r div rows" cols] divl [OF that] pos n
        by simp
      from e c have "(?sh r' + c) mod n = (?sh r + c) mod n" by (simp add: ix_def)
      from add_mod_inj [OF shn [OF q(1)] shn [OF p(1)] this]
      have "?sh r' = ?sh r" .
      from pair_code_inj [OF divl [OF q(1)] divl [OF p(1)] this]
      have "r' mod rows = r mod rows" "r' div rows = r div rows" by simp_all
      then have "r' = r" by (metis div_mult_mod_eq)
      with c ne show False by simp
    next
      assume b: "r' div rows = r div rows \<and> c' div cols = c div cols"
      let ?a = "\<lambda>r c. cols * (r mod rows) + c mod cols"
      let ?k = "r div rows + cols * (c div cols)"
      have an: "?a r c < n" for r c
        using pair_code_less [of "r mod rows" rows "c mod cols" cols] pos n by simp
      have split: "cols * (r mod rows) + r div rows + c = ?a r c + (r div rows + cols * (c div cols))"
        for r c
        using mult_div_mod_eq [of cols c] by simp
      from e b have "(?a r' c' + ?k) mod n = (?a r c + ?k) mod n"
        unfolding ix_def split by simp
      from add_mod_inj [OF an an this] have "?a r' c' = ?a r c" .
      from pair_code_inj [OF _ _ this] pos
      have "r' mod rows = r mod rows" "c' mod cols = c mod cols" by simp_all
      with b have "r' = r" "c' = c" by (metis div_mult_mod_eq)+
      with ne show False by simp
    qed
  qed
  have "rotated n numbers (fst q) (snd q) \<noteq> rotated n numbers (fst p) (snd p)"
    if "fst p < n \<and> snd p < n \<and> peer n p q" for p q
  proof -
    from that diff [of "fst p" "snd p" "fst q" "snd q"] have "ix (fst q) (snd q) \<noteq> ix (fst p) (snd p)"
      by simp
    with dist ixn len show ?thesis by (simp add: rot nth_eq_iff_index_eq)
  qed
  with rng show ?thesis unfolding isSolution_def by blast
qed

lemma rotated_first_row:
  assumes "supportedSize n" and "c < n"
  shows "rotated n numbers 0 c = numbers ! c"
  using assms by (auto simp: rotated_def supportedSize_def getBoxDimensions_def)

lemma cells_of_valid_extension:
  assumes "supportedSize (length g)" and "extendsTo g s"
  shows "validGrid g"
  unfolding validGrid_def
proof (intro allI impI)
  fix r c v assume rc: "r < length g" "c < length g" and v: "readCell g r c = Num v"
  with assms(2) have "s r c = v" by (auto simp: extendsTo_def)
  with extension_move_valid [OF assms rc] show "isValidMove g (int r) (int c) v = Some True"
    by simp
qed

text \<open>The seeded source from a state that is not negative: the shuffle returns a
  permutation and does not touch the world.\<close>

lemma shuffleFrom_seeded:
  assumes "0 \<le> state" and "k < length xs"
  shows "\<exists>ys state'. shuffleFrom k xs (Seeded state) w = Some (ys, Seeded state', w)
           \<and> length ys = length xs \<and> set ys = set xs \<and> distinct ys = distinct xs
           \<and> 0 \<le> state'"
  using assms
proof (induction k arbitrary: xs state)
  case 0
  then show ?case by simp
next
  case (Suc k)
  from random_Seeded_nonneg [OF Suc.prems(1), of w] obtain st where
    rnd: "random (Seeded state) w = (real_of_int st / 233280, Seeded st, w)"
    and st: "0 \<le> st" "st < 233280" by blast
  let ?x = "real_of_int st / 233280"
  let ?j = "\<lfloor>?x * real (Suc k + 1)\<rfloor>"
  from st have x0: "0 \<le> ?x" and x1: "?x < 1" by simp_all
  from x0 have j0: "0 \<le> ?j" by simp
  have "?x * real (Suc k + 1) < real (Suc k + 1)"
    using x1 by (simp add: mult_less_cancel_right1 del: of_nat_Suc of_nat_add)
  then have "?j < int (Suc k + 1)" by (simp add: floor_less_iff del: of_nat_Suc of_nat_add)
  with Suc.prems(2) have j1: "?j < int (length xs)" and jn: "nat ?j < length xs"
    using j0 by auto
  let ?xs = "xs[Suc k := xs ! nat ?j, nat ?j := xs ! Suc k]"
  have m: "length ?xs = length xs" "set ?xs = set xs" "distinct ?xs = distinct xs"
    using set_swap [OF Suc.prems(2) jn] distinct_swap [OF Suc.prems(2) jn] by simp_all
  from Suc.prems(2) have "k < length ?xs" by simp
  from Suc.IH [OF st(1) this] obtain ys st' where
    rec: "shuffleFrom k ?xs (Seeded st) w = Some (ys, Seeded st', w)"
    and ms: "length ys = length ?xs" "set ys = set ?xs" "distinct ys = distinct ?xs"
    and st': "0 \<le> st'" by blast
  from rnd j0 j1 rec have "shuffleFrom (Suc k) xs (Seeded state) w = Some (ys, Seeded st', w)"
    by (simp add: Let_def del: of_nat_Suc of_nat_add)
  with ms m st' show ?case by (simp del: length_list_update)
qed

lemma shuffleArray_seeded:
  assumes "0 \<le> seed" and "xs \<noteq> []"
  shows "\<exists>ys state'. shuffleArray xs (seededRandom seed) w = Some (ys, Seeded state', w)
           \<and> length ys = length xs \<and> set ys = set xs \<and> distinct ys = distinct xs"
  using shuffleFrom_seeded [OF assms(1), of "length xs - 1" xs w] assms(2)
  by (auto simp: shuffleArray_def seededRandom_def)




text \<open>With a seed the world is neither read nor changed, whatever the seed.\<close>

lemma random_Seeded_world:
  "random (Seeded state) u
     = (real_of_int (jsRem (state * 9301 + 49297) 233280) / 233280,
        Seeded (jsRem (state * 9301 + 49297) 233280), u)"
  by (simp add: Let_def)

lemma shuffleFrom_seeded_world:
  "shuffleFrom k xs (Seeded state) w
     = (case shuffleFrom k xs (Seeded state) w0 of
          None \<Rightarrow> None
        | Some (ys, rng, u) \<Rightarrow> Some (ys, rng, w))"
proof (induction k arbitrary: xs state)
  case 0
  show ?case by simp
next
  case (Suc k)
  let ?st = "jsRem (state * 9301 + 49297) 233280"
  let ?j = "\<lfloor>real_of_int ?st / 233280 * real (Suc k + 1)\<rfloor>"
  show ?case
  proof (cases "?j < 0 \<or> int (length xs) \<le> ?j")
    case True
    then show ?thesis
      by (simp add: Let_def del: of_nat_Suc of_nat_add)
  next
    case False
    then have step: "shuffleFrom (Suc k) xs (Seeded state) u
        = shuffleFrom k (xs[Suc k := xs ! nat ?j, nat ?j := xs ! Suc k]) (Seeded ?st) u" for u
      by (simp add: Let_def del: of_nat_Suc of_nat_add)
    show ?thesis unfolding step by (rule Suc.IH)
  qed
qed



text \<open>The grid of \<open>generateSolvedGrid\<close> before \<open>solve\<close>: the first row filled.\<close>

definition firstRowGrid :: "nat \<Rightarrow> int list \<Rightarrow> nat \<Rightarrow> grid" where
  "firstRowGrid n numbers k =
     (map Some (take k numbers) @ replicate (n - k) None) # replicate (n - 1) (replicate n None)"

lemma fill_first_row:
  assumes "0 < n" and "length numbers = n" and "k \<le> n"
  shows "fold (\<lambda>c g. setCell g 0 c (Some (numbers ! c))) [0..<k] (createEmptyGrid n)
           = firstRowGrid n numbers k"
  using assms(3)
proof (induction k)
  case 0
  from assms(1) have "replicate n (replicate n (None :: cell))
      = replicate n None # replicate (n - 1) (replicate n None)"
    by (cases n) simp_all
  then show ?case by (simp add: createEmptyGrid_def firstRowGrid_def)
next
  case (Suc k)
  then have k: "k < n" by simp
  with assms(2) have tk: "take (Suc k) numbers = take k numbers @ [numbers ! k]"
    by (simp add: take_Suc_conv_app_nth)
  from k have rep: "replicate (n - k) (None :: cell) = None # replicate (n - Suc k) None"
    by (cases "n - k") (simp_all add: Suc_diff_Suc)
  have lk: "length (map Some (take k numbers)) = k" using k assms(2) by simp
  have "(map Some (take k numbers) @ replicate (n - k) None)[k := Some (numbers ! k)]
        = map Some (take (Suc k) numbers) @ replicate (n - Suc k) None"
    using lk by (simp add: rep tk list_update_append)
  with Suc show ?case by (simp add: firstRowGrid_def setCell_def)
qed

lemma firstRowGrid_full:
  "length numbers = n \<Longrightarrow>
     firstRowGrid n numbers n = map Some numbers # replicate (n - 1) (replicate n None)"
  by (simp add: firstRowGrid_def)

lemma readCell_firstRowGrid:
  assumes "length numbers = n" and "r < n" and "c < n"
  shows "readCell (firstRowGrid n numbers n) r c = (if r = 0 then Num (numbers ! c) else Null)"
proof (cases r)
  case 0
  with assms show ?thesis by (simp add: firstRowGrid_full readCell_def)
next
  case (Suc r')
  with assms(2) have r': "r' < n - 1" by simp
  then have row: "(map Some numbers # replicate (n - 1) (replicate n None)) ! r = replicate n None"
    by (simp add: Suc)
  have len: "length (map Some numbers # replicate (n - 1) (replicate n (None :: cell))) = n"
    using assms(2) by simp
  from assms Suc show ?thesis
    unfolding firstRowGrid_full [OF assms(1)] readCell_def row len by simp
qed

lemma wfGrid_firstRowGrid:
  assumes "supportedSize n" and "length numbers = n"
  shows "wfGrid (firstRowGrid n numbers n)"
proof -
  from assms(1) have "0 < n" by (auto simp: supportedSize_def)
  then have l: "length (firstRowGrid n numbers n) = n" by (simp add: firstRowGrid_def)
  with assms show ?thesis by (simp add: wfGrid_def firstRowGrid_def list_all_iff)
qed

lemma firstRowGrid_extends:
  assumes sup: "supportedSize n"
    and facts: "length numbers = n" "distinct numbers" "set numbers = {1..int n}"
  shows "extendsTo (firstRowGrid n numbers n) (rotated n numbers)"
proof -
  from sup have npos: "0 < n" by (auto simp: supportedSize_def)
  then have l: "length (firstRowGrid n numbers n) = n" by (simp add: firstRowGrid_def)
  have cells: "rotated n numbers r c = v"
    if "r < n" "c < n" "readCell (firstRowGrid n numbers n) r c = Num v" for r c v
  proof -
    from that have "r = 0" "v = numbers ! c"
      by (simp_all add: readCell_firstRowGrid [OF facts(1)] split: if_splits)
    with rotated_first_row [OF sup that(2)] show ?thesis by simp
  qed
  from rotated_solution [OF sup facts] cells show ?thesis
    unfolding extendsTo_def l by blast
qed


text \<open>A complete grid: every cell of the square holds a number.\<close>

definition completeGrid :: "grid \<Rightarrow> bool" where
  "completeGrid g = (\<forall>r < length g. \<forall>c < length g. \<exists>v. readCell g r c = Num v)"

lemma wfGrid_shape: "wfGrid g \<Longrightarrow> map length g' = map length g \<Longrightarrow> wfGrid g'"
proof -
  assume wf: "wfGrid g" and sh: "map length g' = map length g"
  from sh have l: "length g' = length g" by (metis length_map)
  have "length (g' ! i) = length g" if "i < length g" for i
  proof -
    from sh that l have "length (g' ! i) = length (g ! i)" by (metis nth_map)
    with wf that show ?thesis by (simp add: wfGrid_def list_all_length)
  qed
  with wf l show ?thesis by (simp add: wfGrid_def list_all_length)
qed

lemma generateSolvedGrid_seeded:
  assumes sup: "supportedSize n" and seed: "0 \<le> seed"
  shows "\<exists>sol. generateSolvedGrid n (Some seed) w = Some (sol, w)
           \<and> wfGrid sol \<and> validGrid sol \<and> completeGrid sol"
proof -
  from sup have npos: "0 < n" by (auto simp: supportedSize_def)
  then have ne: "[1..int n] \<noteq> []" by simp
  from shuffleArray_seeded [OF seed ne, of w] obtain numbers st where
    sh: "shuffleArray [1..int n] (seededRandom seed) w = Some (numbers, Seeded st, w)"
    and m: "length numbers = length [1..int n]" "set numbers = set [1..int n]"
      "distinct numbers = distinct [1..int n]" by blast
  from m have len: "length numbers = n" and dist: "distinct numbers"
    and vals: "set numbers = {1..int n}" by simp_all
  let ?g0 = "firstRowGrid n numbers n"
  have fill: "fold (\<lambda>c g. setCell g 0 c (Some (numbers ! c))) [0..<n] (createEmptyGrid n) = ?g0"
    by (rule fill_first_row [OF npos len]) simp
  have wf0: "wfGrid ?g0" by (rule wfGrid_firstRowGrid [OF sup len])
  then have l0: "length ?g0 = n" using npos by (simp add: firstRowGrid_def)
  from sup l0 have sup0: "supportedSize (length ?g0)" by simp
  have ext: "extendsTo ?g0 (rotated n numbers)"
    by (rule firstRowGrid_extends [OF sup len dist vals])
  from solve_complete(1) [OF sup0 ext] obtain sol where s: "solve ?g0 = Some (True, sol)" ..
  from solve_shape(1) [OF s] have shape: "map length sol = map length ?g0" .
  then have l: "length sol = n" using l0 by (metis length_map)
  have wf: "wfGrid sol" by (rule wfGrid_shape [OF wf0 shape])
  have v: "validGrid sol"
    by (rule solve_valid(1) [OF sup0 cells_of_valid_extension [OF sup0 ext] s])
  have "completeGrid sol"
    unfolding completeGrid_def
  proof (intro allI impI)
    fix r c assume rc: "r < length sol" "c < length sol"
    from findEmptyCell_None [OF solve_success(1) [OF s] rc]
    have "readCell sol r c \<noteq> Null" .
    moreover from wfGrid_inGrid [OF wf rc] have "readCell sol r c \<noteq> Undefined"
      by (auto simp: inGrid_def readCell_def split: option.splits)
    ultimately show "\<exists>v. readCell sol r c = Num v" by (cases "readCell sol r c") auto
  qed
  with sh fill s wf v show ?thesis
    by (simp add: generateSolvedGrid_def Let_def)
qed

section \<open>Uniqueness of the solution after removing cells\<close>

lemma findSolutions_restores:
  "findSolutions g sols m = Some (g', sols') \<Longrightarrow> g' = g"
  using findSolutions_restores_p(1) findSolutions_dom_total by blast

lemma findSolutions_total:
  "supportedSize (length g) \<Longrightarrow> \<exists>res. findSolutions g sols m = Some res"
  "supportedSize (length g) \<Longrightarrow> \<exists>res. findSolutionsLoop g sols m row col n num = Some res"
proof (induction g sols m and g sols m row col n num rule: findSolutions_findSolutionsLoop.induct)
  case (1 g sols m)
  note fs = findSolutions.simps [of g sols m]
  show ?case
  proof (cases "m \<le> length sols")
    case True
    then show ?thesis by (simp add: fs)
  next
    case False
    from findEmptyCell_total [OF 1(2)] obtain cell where cell: "findEmptyCell g = Some cell" ..
    show ?thesis
    proof (cases cell)
      case None
      with cell False show ?thesis by (simp add: fs)
    next
      case (Some p)
      obtain r c where p: "p = (r, c)" by (cases p)
      from 1(1) [OF False cell Some p [symmetric] 1(2)] cell Some p False show ?thesis
        by (simp add: fs)
    qed
  qed
next
  case (2 g sols m row col n num)
  note fs = findSolutionsLoop.simps [of g sols m row col n num]
  show ?case
  proof (cases "num \<le> n")
    case False
    then show ?thesis by (simp add: fs)
  next
    case le: True
    from isValidMove_total [OF 2(4)] obtain ok where
      ok: "isValidMove g (int row) (int col) (int num) = Some ok" by blast
    show ?thesis
    proof (cases ok)
      case False
      with 2(3) [OF le ok False 2(4)] le ok show ?thesis by (simp add: fs)
    next
      case True
      from 2(1) [OF le ok True] 2(4) obtain g1 s1 where
        inner: "findSolutions (setCell g row col (Some (int num))) sols m = Some (g1, s1)"
        by auto
      from findSolutions_restores [OF inner] have g1: "g1 = setCell g row col (Some (int num))" .
      show ?thesis
      proof (cases "m \<le> length s1")
        case full: True
        with inner le ok True show ?thesis by (simp add: fs)
      next
        case notfull: False
        from 2(2) [OF le ok True inner refl refl notfull] 2(4) g1
        have "\<exists>res. findSolutionsLoop (setCell g1 row col None) s1 m row col n (num + 1) = Some res"
          by simp
        with inner le ok True notfull show ?thesis by (simp add: fs)
      qed
    qed
  qed
qed

lemma hasUniqueSolution_total:
  "supportedSize (length g) \<Longrightarrow> \<exists>u. hasUniqueSolution g = Some u"
  using findSolutions_total(1) [of g "[]" 2]
  by (auto simp: hasUniqueSolution_def)

lemma findEmptyCell_complete:
  assumes "supportedSize (length g)" and "completeGrid g"
  shows "findEmptyCell g = Some None"
proof -
  from findEmptyCell_total [OF assms(1)] obtain cell where cell: "findEmptyCell g = Some cell" ..
  show ?thesis
  proof (cases cell)
    case None
    with cell show ?thesis by simp
  next
    case (Some p)
    obtain r c where p: "p = (r, c)" by (cases p)
    from cell Some p have fe: "findEmptyCell g = Some (Some (r, c))" by simp
    from findEmptyCell_pos [OF fe] assms(2) obtain y where "readCell g r c = Num y"
      unfolding completeGrid_def by blast
    with findEmptyCell_Null [OF fe] have False by simp
    then show ?thesis ..
  qed
qed

lemma findSolutions_complete:
  assumes "supportedSize (length g)" and "completeGrid g" and "length sols < m"
  shows "findSolutions g sols m = Some (g, sols @ [g])"
  using assms findEmptyCell_complete [OF assms(1,2)]
  by (simp add: findSolutions.simps [of g sols m])

lemma hasUniqueSolution_complete:
  assumes "supportedSize (length g)" and "completeGrid g"
  shows "hasUniqueSolution g = Some True"
  using findSolutions_complete [OF assms, of "[]" 2]
  by (simp add: hasUniqueSolution_def)

text \<open>In a valid complete grid, the values of a row are all different, so they are all
  the values \<open>1..n\<close>.\<close>

lemma row_has_every_value:
  assumes sup: "supportedSize (length g)" and v: "validGrid g" and cp: "completeGrid g"
    and r: "r < length g" and x: "1 \<le> x" "x \<le> int (length g)"
  shows "\<exists>c < length g. readCell g r c = Num x"
proof -
  let ?n = "length g"
  define f where "f c = (THE y. readCell g r c = Num y)" for c
  have fc: "readCell g r c = Num (f c)" if "c < ?n" for c
  proof -
    from cp r that obtain y where "readCell g r c = Num y" by (auto simp: completeGrid_def)
    then show ?thesis by (simp add: f_def)
  qed
  have ok: "isValidMove g (int r) (int c) (f c) = Some True" if "c < ?n" for c
    using v r that fc [OF that] by (simp add: validGrid_def)
  have rng: "f c \<in> {1..int ?n}" if "c < ?n" for c
    using ok [OF that] by (simp add: isValidMove_iff [OF sup r that])
  have inj: "inj_on f {..<?n}"
  proof (rule inj_onI)
    fix c c' assume c: "c \<in> {..<?n}" and c': "c' \<in> {..<?n}" and e: "f c = f c'"
    show "c = c'"
    proof (rule ccontr)
      assume ne: "c \<noteq> c'"
      with c c' r have "peer ?n (r, c) (r, c')" by (simp add: peer_def)
      with ok [of c] c have "readCell g r c' \<noteq> Num (f c)"
        by (auto simp: isValidMove_iff [OF sup r])
      with fc [of c'] c' e show False by simp
    qed
  qed
  have "f ` {..<?n} = {1..int ?n}"
  proof (rule card_subset_eq)
    show "finite {1..int ?n}" by simp
    show "f ` {..<?n} \<subseteq> {1..int ?n}" using rng by auto
    show "card (f ` {..<?n}) = card {1..int ?n}" by (simp add: card_image [OF inj])
  qed
  with x have "x \<in> f ` {..<?n}" by simp
  then obtain c where "c < ?n" "f c = x" by auto
  with fc [of c] show ?thesis by auto
qed

text \<open>Emptying one cell of a valid complete grid leaves exactly one solution: only the
  value that was removed passes \<open>isValidMove\<close> there.\<close>

lemma one_hole_moves:
  assumes sup: "supportedSize (length sol)" and wf: "wfGrid sol" and v: "validGrid sol"
    and cp: "completeGrid sol" and r: "r < length sol" and c: "c < length sol"
    and y: "readCell sol r c = Num y" and x: "1 \<le> x" "x \<le> int (length sol)"
  shows "isValidMove (setCell sol r c None) (int r) (int c) x = Some (x = y)"
proof -
  have own: "isValidMove (setCell sol r c None) (int r) (int c) x = isValidMove sol (int r) (int c) x"
    by (rule isValidMove_own_cell)
  show ?thesis
  proof (cases "x = y")
    case True
    with v r c y own show ?thesis by (simp add: validGrid_def)
  next
    case False
    from row_has_every_value [OF sup v cp r x] obtain c' where
      c': "c' < length sol" "readCell sol r c' = Num x" by blast
    with y False have "c' \<noteq> c" by auto
    with c' r have "peer (length sol) (r, c) (r, c')" by (simp add: peer_def)
    with c'(2) have "\<not> (\<forall>q. peer (length sol) (r, c) q \<longrightarrow> readCell sol (fst q) (snd q) \<noteq> Num x)"
      by force
    with False own show ?thesis by (simp add: isValidMove_iff [OF sup r c])
  qed
qed

lemma valid_cell_range:
  assumes "supportedSize (length g)" and "validGrid g" and "r < length g" and "c < length g"
    and "readCell g r c = Num y"
  shows "1 \<le> y" and "y \<le> int (length g)"
proof -
  from assms(2-5) have "isValidMove g (int r) (int c) y = Some True"
    unfolding validGrid_def by blast
  then show "1 \<le> y" and "y \<le> int (length g)"
    by (simp_all add: isValidMove_iff [OF assms(1,3,4)])
qed

lemma one_hole_findEmptyCell:
  assumes sup: "supportedSize (length sol)" and wf: "wfGrid sol" and cp: "completeGrid sol"
    and r: "r < length sol" and c: "c < length sol"
  shows "findEmptyCell (setCell sol r c None) = Some (Some (r, c))"
proof -
  let ?g = "setCell sol r c None"
  from wfGrid_inGrid [OF wf r c] have hole: "readCell ?g r c = Null"
    by (simp add: readCell_setCell)
  from sup have "supportedSize (length ?g)" by simp
  from findEmptyCell_total [OF this] obtain cell where cell: "findEmptyCell ?g = Some cell" ..
  show ?thesis
  proof (cases cell)
    case None
    with cell findEmptyCell_None [of ?g r c] r c hole show ?thesis by simp
  next
    case (Some p)
    obtain r' c' where p: "p = (r', c')" by (cases p)
    from cell Some p have fe: "findEmptyCell ?g = Some (Some (r', c'))" by simp
    from findEmptyCell_pos [OF fe] have rng: "r' < length sol" "c' < length sol" by simp_all
    from cp rng obtain z where z: "readCell sol r' c' = Num z"
      unfolding completeGrid_def by blast
    have "(r', c') = (r, c)"
    proof (rule ccontr)
      assume "(r', c') \<noteq> (r, c)"
      then have "readCell ?g r' c' = readCell sol r' c'" by (auto simp: readCell_setCell)
      with z findEmptyCell_Null [OF fe] show False by simp
    qed
    with fe show ?thesis by simp
  qed
qed

lemma one_hole_loop:
  assumes sup: "supportedSize (length sol)" and wf: "wfGrid sol" and v: "validGrid sol"
    and cp: "completeGrid sol" and r: "r < length sol" and c: "c < length sol"
    and y: "readCell sol r c = Num y"
  shows "1 \<le> num \<Longrightarrow> num \<le> length sol + 1 \<Longrightarrow>
    findSolutionsLoop (setCell sol r c None) (if y < int num then [sol] else []) 2
        r c (length sol) num
      = Some (setCell sol r c None, [sol])"
proof (induction "length sol + 1 - num" arbitrary: num)
  case 0
  then have n: "num = length sol + 1" by simp
  from valid_cell_range(2) [OF sup v r c y] have "y \<le> int (length sol)" .
  with n show ?case
    by (subst findSolutionsLoop.simps) simp
next
  case (Suc k)
  let ?g = "setCell sol r c None"
  let ?n = "length sol"
  from Suc.hyps(2) Suc.prems have le: "num \<le> ?n" by simp
  with Suc.prems(1) have x: "1 \<le> int num" "int num \<le> int ?n" by simp_all
  note mv = one_hole_moves [OF sup wf v cp r c y x]
  have k: "k = ?n + 1 - (num + 1)" using Suc.hyps(2) by simp
  have nx: "1 \<le> num + 1" "num + 1 \<le> ?n + 1" using le by simp_all
  note ih = Suc.hyps(1) [OF k nx]
  note fs = findSolutionsLoop.simps [of ?g _ 2 r c ?n num]
  show ?case
  proof (cases "int num = y")
    case True
    have "setCell ?g r c (Some (int num)) = sol"
      using True by (simp add: setCell_overwrite setCell_same_Num [OF y])
    moreover have "findSolutions sol [] 2 = Some (sol, [sol])"
      using findSolutions_complete [OF sup cp, of "[]" 2] by simp
    ultimately show ?thesis using True le mv ih by (simp add: fs)
  next
    case False
    then have "(y < int num) = (y < int (num + 1))" by auto
    with False le mv ih show ?thesis by (simp add: fs)
  qed
qed

lemma hasUniqueSolution_one_hole:
  assumes sup: "supportedSize (length sol)" and wf: "wfGrid sol" and v: "validGrid sol"
    and cp: "completeGrid sol" and r: "r < length sol" and c: "c < length sol"
  shows "hasUniqueSolution (setCell sol r c None) = Some True"
proof -
  from cp r c obtain y where y: "readCell sol r c = Num y"
    unfolding completeGrid_def by blast
  from valid_cell_range(1) [OF sup v r c y] have "1 \<le> y" .
  then have "\<not> y < int 1" by simp
  with one_hole_loop [OF sup wf v cp r c y, of 1]
  have "findSolutionsLoop (setCell sol r c None) [] 2 r c (length sol) 1
        = Some (setCell sol r c None, [sol])" by simp
  with one_hole_findEmptyCell [OF sup wf cp r c] show ?thesis
    by (simp add: hasUniqueSolution_def findSolutions.simps [of "setCell sol r c None" "[]" 2])
qed

lemma hasUniqueSolution_countSolutions:
  "hasUniqueSolution g = map_option (\<lambda>n. n = 1) (countSolutions g 2)"
proof (cases "findSolutions (cloneGrid g) [] 2")
  case None
  with find_count(1) [of "cloneGrid g" "[]" 2]
  have "countSolutionsRecursive (cloneGrid g) 0 2 = None" by simp
  with None show ?thesis by (simp add: hasUniqueSolution_def countSolutions_def)
next
  case (Some a)
  obtain g' sols where a: "a = (g', sols)" by (cases a)
  with Some find_count(1) [of "cloneGrid g" "[]" 2]
  have "countSolutionsRecursive (cloneGrid g) 0 2 = Some (g', length sols)" by simp
  with Some a show ?thesis by (simp add: hasUniqueSolution_def countSolutions_def)
qed

lemma wfGrid_setCell [simp]: "wfGrid (setCell g r c v) = wfGrid g"
proof
  assume "wfGrid (setCell g r c v)"
  then show "wfGrid g" by (rule wfGrid_shape) simp
next
  assume "wfGrid g"
  then show "wfGrid (setCell g r c v)" by (rule wfGrid_shape) simp
qed

lemma setCell_restore: "setCell (setCell g r c x) r c (g ! r ! c) = g"
proof (cases "r < length g")
  case True
  have "(g ! r)[c := g ! r ! c] = g ! r" by (rule list_update_id)
  with True show ?thesis by (simp add: setCell_overwrite) (simp add: setCell_def)
next
  case False
  then show ?thesis by (simp add: setCell_def list_update_beyond)
qed

text \<open>The loop of \<open>removeNumbers\<close> keeps the puzzle uniquely solvable and never fills a
  cell again.\<close>

lemma removeLoop_inv:
  assumes sup: "supportedSize n"
  shows "length g = n \<Longrightarrow> wfGrid g \<Longrightarrow> hasUniqueSolution g = Some True \<Longrightarrow>
    \<forall>p \<in> set ps. fst p < n \<and> snd p < n \<Longrightarrow>
    \<exists>g'. removeLoop g count removed ps = Some g' \<and> length g' = n \<and> wfGrid g'
         \<and> hasUniqueSolution g' = Some True
         \<and> (\<forall>r c. readCell g r c = Null \<longrightarrow> (r, c) \<notin> set ps \<longrightarrow> readCell g' r c = Null)"
proof (induction ps arbitrary: g removed)
  case Nil
  then show ?case by simp
next
  case (Cons p ps)
  obtain row col where p: "p = (row, col)" by (cases p)
  from Cons.prems(4) p have rng: "row < n" "col < n"
    and rest: "\<forall>p \<in> set ps. fst p < n \<and> snd p < n" by simp_all
  show ?case
  proof (cases "count \<le> removed")
    case True
    with Cons.prems p show ?thesis by simp
  next
    case False
    from wfGrid_inGrid [OF Cons.prems(2)] rng Cons.prems(1) have ing: "inGrid g row col" by simp
    let ?g1 = "setCell g row col None"
    have l1: "length ?g1 = n" using Cons.prems(1) by simp
    have wf1: "wfGrid ?g1" using Cons.prems(2) by simp
    from hasUniqueSolution_total [of ?g1] sup l1 obtain u where
      u: "hasUniqueSolution ?g1 = Some u" by auto
    show ?thesis
    proof (cases u)
      case True
      from Cons.IH [OF l1 wf1 _ rest, of "removed + 1"] u True obtain g' where
        g': "removeLoop ?g1 count (removed + 1) ps = Some g'" "length g' = n" "wfGrid g'"
          "hasUniqueSolution g' = Some True"
        and keep: "\<And>r c. readCell ?g1 r c = Null \<Longrightarrow> (r, c) \<notin> set ps \<Longrightarrow> readCell g' r c = Null"
        by auto
      have "readCell g' r c = Null" if "readCell g r c = Null" "(r, c) \<notin> set (p # ps)" for r c
      proof -
        from that p have "readCell ?g1 r c = Null" "(r, c) \<notin> set ps"
          by (auto simp: readCell_setCell)
        then show ?thesis by (rule keep)
      qed
      with g' False ing u True p show ?thesis by simp
    next
      case no: False
      have undo: "setCell ?g1 row col (g ! row ! col) = g" by (rule setCell_restore)
      from Cons.IH [OF Cons.prems(1,2,3) rest, of removed] obtain g' where
        g': "removeLoop g count removed ps = Some g'" "length g' = n" "wfGrid g'"
          "hasUniqueSolution g' = Some True"
        and keep: "\<And>r c. readCell g r c = Null \<Longrightarrow> (r, c) \<notin> set ps \<Longrightarrow> readCell g' r c = Null"
        by auto
      from keep have "readCell g' r c = Null"
        if "readCell g r c = Null" "(r, c) \<notin> set (p # ps)" for r c
        using that by simp
      with g' False ing u no p undo show ?thesis by simp
    qed
  qed
qed

lemma distinct_allPositions: "distinct (allPositions n)"
  unfolding allPositions_def
  by (rule distinct_concat) (auto simp: distinct_map inj_on_def)

lemma allPositions_nonempty: "0 < n \<Longrightarrow> allPositions n \<noteq> []"
proof -
  assume "0 < n"
  then have "(0, 0) \<in> set (allPositions n)" by (simp add: set_allPositions)
  then show ?thesis by auto
qed

lemma removeNumbers_seeded:
  assumes sup: "supportedSize (length sol)" and wf: "wfGrid sol" and v: "validGrid sol"
    and cp: "completeGrid sol" and seed: "0 \<le> seed" and count: "1 \<le> count"
  shows "\<exists>g. removeNumbers sol count (Some seed) w = Some (g, w)
           \<and> hasUniqueSolution g = Some True
           \<and> (\<exists>r c. readCell g r c = Null)"
proof -
  let ?n = "length sol"
  from sup have npos: "0 < ?n" by (auto simp: supportedSize_def)
  from seed have s2: "0 \<le> seed * 2" by simp
  from shuffleArray_seeded [OF s2 allPositions_nonempty [OF npos], of w] obtain ps st where
    sh: "shuffleArray (allPositions ?n) (seededRandom (seed * 2)) w = Some (ps, Seeded st, w)"
    and m: "length ps = length (allPositions ?n)" "set ps = set (allPositions ?n)"
      "distinct ps = distinct (allPositions ?n)" by blast
  from m have setps: "set ps = set (allPositions ?n)" by simp
  from m distinct_allPositions [of ?n] have dist: "distinct ps" by simp
  from m(1) allPositions_nonempty [OF npos] have "ps \<noteq> []" by (cases ps) simp_all
  then obtain p ps' where ps: "ps = p # ps'" by (cases ps) simp_all
  obtain row col where p: "p = (row, col)" by (cases p)
  from ps p have "(row, col) \<in> set ps" by simp
  with setps have "(row, col) \<in> set (allPositions ?n)" by simp
  then have "(row, col) \<in> {(r, c). r < ?n \<and> c < ?n}" unfolding set_allPositions .
  then have rng: "row < ?n" "col < ?n" by auto
  have rest: "\<forall>q \<in> set ps'. fst q < ?n \<and> snd q < ?n"
  proof
    fix q assume "q \<in> set ps'"
    with ps have "q \<in> set ps" by simp
    with setps have "q \<in> set (allPositions ?n)" by simp
    then have "q \<in> {(r, c). r < ?n \<and> c < ?n}" unfolding set_allPositions .
    then show "fst q < ?n \<and> snd q < ?n" by auto
  qed
  from dist ps p have fresh: "(row, col) \<notin> set ps'" by simp
  let ?g1 = "setCell sol row col None"
  from wfGrid_inGrid [OF wf rng] have ing: "inGrid sol row col" .
  then have hole: "readCell ?g1 row col = Null" by (simp add: readCell_setCell)
  have u1: "hasUniqueSolution ?g1 = Some True"
    by (rule hasUniqueSolution_one_hole [OF sup wf v cp rng])
  have l1: "length ?g1 = ?n" by simp
  have wf1: "wfGrid ?g1" using wf by simp
  from removeLoop_inv [OF sup l1 wf1 u1 rest, of count 1] obtain g where
    g: "removeLoop ?g1 count 1 ps' = Some g" "hasUniqueSolution g = Some True"
    and keep: "\<forall>r c. readCell ?g1 r c = Null \<longrightarrow> (r, c) \<notin> set ps' \<longrightarrow> readCell g r c = Null"
    by blast
  from keep hole fresh have null: "readCell g row col = Null" by blast
  from count have "\<not> count \<le> 0" by simp
  with ing u1 g(1) p have "removeLoop sol count 0 (p # ps') = Some g" by simp
  with sh ps have "removeNumbers sol count (Some seed) w = Some (g, w)"
    by (simp add: removeNumbers_def)
  with g(2) null show ?thesis by blast
qed

lemma clues_less_cells:
  "supportedSize n \<Longrightarrow> 1 \<le> int (n * n) - int (getCluesForDifficulty n d)"
  by (cases d) (auto simp: supportedSize_def getCluesForDifficulty_def)

lemma readCell_Null_incomplete: "readCell g r c = Null \<Longrightarrow> \<not> isGridComplete g"
proof
  assume n: "readCell g r c = Null" and cp: "isGridComplete g"
  from n have "r < length g" "c < length (g ! r)" "g ! r ! c = None"
    by (auto simp: readCell_def split: if_splits option.splits)
  moreover from cp have "\<And>i j. i < length g \<Longrightarrow> j < length (g ! i) \<Longrightarrow> g ! i ! j \<noteq> None"
    unfolding isGridComplete_def list_all_length by blast
  ultimately show False by blast
qed

section \<open>Properties of the hint\<close>

text \<open>The number a grid holds in a cell (0 where the cell holds none).\<close>

definition valueAt :: "grid \<Rightarrow> nat \<Rightarrow> nat \<Rightarrow> int" where
  "valueAt g r c = (case readCell g r c of Num v \<Rightarrow> v | _ \<Rightarrow> 0)"

text \<open>A 4x4 grid without conflict in which the first empty cell (0,0) has three
  candidates and the cell (0,1) has the two candidates 2 and 3; no solution has 2 there.\<close>

definition gridHint :: grid where
  "gridHint =
     [[None, None, None, None],
      [None, Some 1, Some 3, None],
      [Some 1, None, Some 4, None],
      [None, Some 4, None, None]]"

text \<open>A 4x4 grid with a conflict (the value 2 twice in the last row and in the last
  column) and one empty cell.\<close>

definition gridConflict :: grid where
  "gridConflict =
     [[None, Some 2, Some 3, Some 4],
      [Some 3, Some 4, Some 1, Some 2],
      [Some 2, Some 1, Some 4, Some 3],
      [Some 4, Some 3, Some 2, Some 2]]"

lemma solve_keeps:
  "solve g = Some (True, g') \<Longrightarrow> readCell g r c = Num v \<Longrightarrow> readCell g' r c = Num v"
  "readCell g row col = Null \<Longrightarrow> solveLoop g row col n num = Some (True, g') \<Longrightarrow>
     readCell g r c = Num v \<Longrightarrow> readCell g' r c = Num v"
proof (induction g and g row col n num arbitrary: g' and g' rule: solve_solveLoop.induct)
  case (1 g)
  from 1(2) obtain cell where cell: "findEmptyCell g = Some cell"
    by (auto simp: solve.simps [of g] bind_eq_Some_conv)
  show ?case
  proof (cases cell)
    case None
    with 1(2,3) cell show ?thesis by (simp add: solve.simps [of g])
  next
    case (Some p)
    obtain r' c' where p: "p = (r', c')" by (cases p)
    from cell Some p have fe: "findEmptyCell g = Some (Some (r', c'))" by simp
    from 1(2) cell Some p have "solveLoop g r' c' (length g) 1 = Some (True, g')"
      by (simp add: solve.simps [of g])
    from 1(1) [OF cell Some p [symmetric] findEmptyCell_Null [OF fe] this 1(3)]
    show ?thesis .
  qed
next
  case (2 g row col gridSize num)
  note ss = solveLoop.simps [of g row col gridSize num]
  show ?case
  proof (cases "num \<le> gridSize")
    case False
    with 2(5) show ?thesis by (simp add: ss)
  next
    case le: True
    from 2(5) le obtain ok where ok: "isValidMove g (int row) (int col) (int num) = Some ok"
      by (auto simp: ss bind_eq_Some_conv)
    show ?thesis
    proof (cases ok)
      case False
      with 2(5) le ok have "solveLoop g row col gridSize (num + 1) = Some (True, g')"
        by (simp add: ss)
      from 2(3) [OF le ok False 2(4) this 2(6)] show ?thesis .
    next
      case True
      let ?g1 = "setCell g row col (Some (int num))"
      from 2(5) le ok True obtain b g2 where s1: "solve ?g1 = Some (b, g2)"
        and rest: "(if b then Some (True, g2)
                    else solveLoop (setCell g2 row col None) row col gridSize (num + 1))
                   = Some (True, g')"
        by (auto simp: ss bind_eq_Some_conv)
      from 2(4,6) have ne: "\<not> (r = row \<and> c = col)" by auto
      with 2(6) have k1: "readCell ?g1 r c = Num v" by (auto simp: readCell_setCell)
      show ?thesis
      proof (cases b)
        case True
        with rest s1 have "solve ?g1 = Some (True, g')" by simp
        from 2(1) [OF le ok \<open>ok\<close> this k1] show ?thesis .
      next
        case False
        with s1 have g2: "g2 = ?g1" by (simp add: solve_restores)
        have same: "setCell g2 row col None = g"
          by (simp add: g2 setCell_overwrite setCell_same [OF 2(4)])
        from rest False same
        have "solveLoop g row col gridSize (num + 1) = Some (True, g')" by simp
        with 2(2) [OF le ok True s1 refl False] same 2(4,6) show ?thesis by simp
      qed
    qed
  qed
qed

lemma solved_complete:
  assumes wf: "wfGrid g" and s: "solve g = Some (True, g')"
  shows "wfGrid g'" and "completeGrid g'"
proof -
  from solve_shape(1) [OF s] have shape: "map length g' = map length g" .
  show wf': "wfGrid g'" by (rule wfGrid_shape [OF wf shape])
  show "completeGrid g'"
    unfolding completeGrid_def
  proof (intro allI impI)
    fix r c assume rc: "r < length g'" "c < length g'"
    from findEmptyCell_None [OF solve_success(1) [OF s] rc]
    have "readCell g' r c \<noteq> Null" .
    moreover from wfGrid_inGrid [OF wf' rc] have "readCell g' r c \<noteq> Undefined"
      by (auto simp: inGrid_def readCell_def split: option.splits)
    ultimately show "\<exists>v. readCell g' r c = Num v" by (cases "readCell g' r c") auto
  qed
qed

lemma complete_valid_isSolution:
  assumes sup: "supportedSize (length g)" and v: "validGrid g" and cp: "completeGrid g"
  shows "isSolution (length g) (valueAt g)"
proof -
  have rng: "1 \<le> valueAt g r c \<and> valueAt g r c \<le> int (length g)"
    if rc: "r < length g" "c < length g" for r c
  proof -
    from cp rc obtain y where y: "readCell g r c = Num y" unfolding completeGrid_def by blast
    from valid_cell_range [OF sup v rc y] y show ?thesis by (simp add: valueAt_def)
  qed
  have diff: "valueAt g (fst q) (snd q) \<noteq> valueAt g (fst p) (snd p)"
    if pr: "fst p < length g" "snd p < length g" and pe0: "peer (length g) p q" for p q
  proof -
    from pe0 have pe: "peer (length g) (fst p, snd p) q" by simp
    from cp pr obtain y where y: "readCell g (fst p) (snd p) = Num y"
      unfolding completeGrid_def by blast
    from peer_range [OF pe] cp obtain z where z: "readCell g (fst q) (snd q) = Num z"
      unfolding completeGrid_def by blast
    from v pr y have "isValidMove g (int (fst p)) (int (snd p)) y = Some True"
      unfolding validGrid_def by blast
    with pe have "readCell g (fst q) (snd q) \<noteq> Num y"
      by (simp add: isValidMove_iff [OF sup pr])
    with y z show ?thesis by (simp add: valueAt_def)
  qed
  from rng diff show ?thesis unfolding isSolution_def by blast
qed

lemma isValidGrid_validGrid:
  assumes "supportedSize (length g)" and "isValidGrid g = Some (True, g')"
  shows "validGrid g"
  unfolding validGrid_def
  using assms isValidGridFrom_True [of g "allPositions (length g)" g']
  by (simp add: isValidGrid_def set_allPositions)

lemma solved_extends:
  assumes wf: "wfGrid g" and v: "validGrid g" and s: "solve g = Some (True, g')"
  shows "extendsTo g (valueAt g')"
proof -
  from wf have sup: "supportedSize (length g)" by (simp add: wfGrid_def)
  from solve_shape(1) [OF s] have len: "length g' = length g" by (metis length_map)
  from sup len have sup': "supportedSize (length g')" by simp
  from solve_valid(1) [OF sup v s] have v': "validGrid g'" .
  from solved_complete [OF wf s] have cp: "completeGrid g'" by simp
  from complete_valid_isSolution [OF sup' v' cp] len
  have "isSolution (length g) (valueAt g')" by simp
  moreover have "valueAt g' r c = y" if "readCell g r c = Num y" for r c y
    using solve_keeps(1) [OF s that] by (simp add: valueAt_def)
  ultimately show ?thesis by (simp add: extendsTo_def)
qed

lemma solution_value_candidate:
  assumes sup: "supportedSize (length g)" and ext: "extendsTo g s"
    and rc: "r < length g" "c < length g"
    and cs: "getCandidates g (int r) (int c) = Some cs" and n: "readCell g r c = Null"
  shows "s r c \<in> set cs"
proof -
  from ext rc have rng: "1 \<le> s r c" "s r c \<le> int (length g)"
    by (auto simp: extendsTo_def isSolution_def)
  from n have "readCellI g (int r) (int c) = Null" by (simp add: readCellI_def)
  with cs rc have "filterOpt (\<lambda>v. isValidMove g (int r) (int c) v) [1..int (length g)] = Some cs"
    by (simp add: getCandidates_def)
  from filterOpt_set [OF this] extension_move_valid [OF sup ext rc] rng
  show ?thesis by simp
qed

text \<open>C5 (as amended). For a grid of a supported size \<open>getHint\<close> always returns, in one
  of four ways: no hint because no cell is empty; no hint because the selected cell has no
  candidate; no hint because \<open>solve\<close> fails on the private copy, although the selected cell
  has candidates, and then the grid has no solution; or the hint \<open>(row, col, v)\<close> where
  \<open>(row, col)\<close> is the cell that \<open>findEmptyCell\<close> selects and \<open>v\<close> is the number the solved
  copy holds there. When the grid is square and \<open>isValidGrid\<close> accepts it, the solved copy
  is a solution of the grid (every cell holds a value of \<open>[1, n]\<close>, no two cells of a row,
  a column or a box hold the same value, and the filled cells of the grid are kept), so the
  hinted value is the cell's value in a solution, and it is one of the cell's candidates.\<close>

theorem getHint_result:
  assumes "supportedSize (length g)"
  shows "(findEmptyCell g = Some None \<and> getHint g = Some None)
    \<or> (\<exists>row col. findEmptyCell g = Some (Some (row, col))
          \<and> getCandidates g (int row) (int col) = Some [] \<and> getHint g = Some None)
    \<or> (\<exists>row col cs g'. findEmptyCell g = Some (Some (row, col))
          \<and> getCandidates g (int row) (int col) = Some cs \<and> cs \<noteq> []
          \<and> solve (cloneGrid g) = Some (False, g') \<and> (\<forall>s. \<not> extendsTo g s)
          \<and> getHint g = Some None)
    \<or> (\<exists>row col cs g' v. findEmptyCell g = Some (Some (row, col))
          \<and> getCandidates g (int row) (int col) = Some cs \<and> cs \<noteq> []
          \<and> solve (cloneGrid g) = Some (True, g') \<and> readCell g' row col = Num v
          \<and> getHint g = Some (Some (row, col, v))
          \<and> (wfGrid g \<and> isValidGrid g = Some (True, g)
               \<longrightarrow> extendsTo g (valueAt g') \<and> valueAt g' row col = v \<and> v \<in> set cs))"
proof -
  from findEmptyCell_total [OF assms] obtain cell where cell: "findEmptyCell g = Some cell" ..
  show ?thesis
  proof (cases cell)
    case None
    with cell show ?thesis by (simp add: getHint_def)
  next
    case (Some p)
    obtain row col where p: "p = (row, col)" by (cases p)
    from cell Some p have fe: "findEmptyCell g = Some (Some (row, col))" by simp
    from findEmptyCell_pos [OF fe] have rng: "row < length g" "col < length g" by auto
    from getCandidates_total [OF assms, of "int row" "int col"] rng obtain cs where
      cs: "getCandidates g (int row) (int col) = Some cs" by auto
    show ?thesis
    proof (cases "cs = []")
      case True
      with fe cs show ?thesis by (simp add: getHint_def)
    next
      case ne: False
      from solve_total(1) [OF assms] obtain b g' where s: "solve (cloneGrid g) = Some (b, g')"
        by auto
      show ?thesis
      proof (cases b)
        case False
        have "\<not> extendsTo g s" for s
        proof
          assume "extendsTo g s"
          from solve_complete(1) [OF assms this] s False show False by simp
        qed
        with fe cs ne s False show ?thesis by (simp add: getHint_def)
      next
        case True
        with s have s': "solve g = Some (True, g')" by simp
        from solve_shape(1) [OF s'] have shape: "map length g' = map length g" .
        then have len: "length g' = length g" by (metis length_map)
        from findEmptyCell_Null [OF fe] have nl: "readCell g row col = Null" .
        then have "inGrid g row col" by (rule readCell_Null_inGrid)
        with shape len have "inGrid g' row col"
          by (metis inGrid_def nth_map)
        then have "readCell g' row col \<noteq> Undefined"
          by (auto simp: inGrid_def readCell_def split: option.splits)
        moreover from findEmptyCell_None [OF solve_success(1) [OF s']] rng len
        have "readCell g' row col \<noteq> Null" by simp
        ultimately obtain v where v: "readCell g' row col = Num v"
          by (cases "readCell g' row col") auto
        with fe cs ne s True have h: "getHint g = Some (Some (row, col, v))"
          by (simp add: getHint_def)
        have "extendsTo g (valueAt g') \<and> valueAt g' row col = v \<and> v \<in> set cs"
          if wf: "wfGrid g" and ok: "isValidGrid g = Some (True, g)"
        proof -
          from isValidGrid_validGrid [OF assms ok] have vg: "validGrid g" .
          from solved_extends [OF wf vg s'] have ext: "extendsTo g (valueAt g')" .
          from v have va: "valueAt g' row col = v" by (simp add: valueAt_def)
          from solution_value_candidate [OF assms ext rng cs nl] va ext show ?thesis by simp
        qed
        with fe cs ne s' v h show ?thesis by auto
      qed
    qed
  qed
qed

text \<open>C5 as stated fails twice. On \<open>gridNoSolution\<close> there is an empty cell, the selected
  cell (0,0) has the candidate 1, and yet no hint is returned. On \<open>gridConflict\<close>, which
  \<open>isValidGrid\<close> rejects, the hint (0,0,1) is returned, read from a solved copy that
  \<open>isValidGrid\<close> rejects as well: the value belongs to no solution.\<close>

theorem getHint_counterexample:
  "findEmptyCell gridNoSolution = Some (Some (0, 0))
   \<and> getCandidates gridNoSolution 0 0 = Some [1]
   \<and> getHint gridNoSolution = Some None
   \<and> isValidGrid gridConflict = Some (False, gridConflict)
   \<and> getHint gridConflict = Some (Some (0, 0, 1))
   \<and> solve (cloneGrid gridConflict)
       = Some (True, [[Some 1, Some 2, Some 3, Some 4],
                      [Some 3, Some 4, Some 1, Some 2],
                      [Some 2, Some 1, Some 4, Some 3],
                      [Some 4, Some 3, Some 2, Some 2]])
   \<and> map_option fst (isValidGrid [[Some 1, Some 2, Some 3, Some 4],
                                  [Some 3, Some 4, Some 1, Some 2],
                                  [Some 2, Some 1, Some 4, Some 3],
                                  [Some 4, Some 3, Some 2, Some 2]]) = Some False"
  unfolding gridNoSolution_def gridConflict_def by code_simp

text \<open>On \<open>gridHint\<close> the selected cell is not the first empty cell, and the hinted value
  3 is not the first of its candidates 2 and 3.\<close>

theorem getHint_result_witness:
  "supportedSize (length gridHint) \<and> wfGrid gridHint
   \<and> isValidGrid gridHint = Some (True, gridHint)
   \<and> getCandidates gridHint 0 0 = Some [2, 3, 4]
   \<and> findEmptyCell gridHint = Some (Some (0, 1))
   \<and> getCandidates gridHint 0 1 = Some [2, 3]
   \<and> getHint gridHint = Some (Some (0, 1, 3))
   \<and> (\<exists>g'. solve (cloneGrid gridHint) = Some (True, g') \<and> extendsTo gridHint (valueAt g')
          \<and> valueAt g' 0 1 = 3)"
proof -
  have s: "supportedSize (length gridHint)"
    by (simp add: supportedSize_def gridHint_def)
  have wf: "wfGrid gridHint"
    by (simp add: wfGrid_def supportedSize_def gridHint_def)
  have ok: "isValidGrid gridHint = Some (True, gridHint)"
    unfolding gridHint_def by code_simp
  have c0: "getCandidates gridHint 0 0 = Some [2, 3, 4]"
    unfolding gridHint_def by code_simp
  have fe: "findEmptyCell gridHint = Some (Some (0, 1))"
    unfolding gridHint_def by code_simp
  have c1: "getCandidates gridHint 0 1 = Some [2, 3]"
    unfolding gridHint_def by code_simp
  have h: "getHint gridHint = Some (Some (0, 1, 3))"
    unfolding gridHint_def by code_simp
  from getHint_result [OF s] fe h wf ok
  have "\<exists>g'. solve (cloneGrid gridHint) = Some (True, g') \<and> extendsTo gridHint (valueAt g')
          \<and> valueAt g' 0 1 = 3"
    by auto
  with s wf ok c0 fe c1 h show ?thesis by simp
qed

section \<open>Properties of the generator\<close>

text \<open>What a call with a seed computes before its uniqueness check: the solved grid and
  the grid after \<open>removeNumbers\<close>. Both random sources are seeded, so the world is not
  read; \<open>world0\<close> stands for any world.\<close>

definition attempt :: "nat \<Rightarrow> Difficulty \<Rightarrow> int \<Rightarrow> (grid \<times> grid) option" where
  "attempt sz d seed =
     do {
       (solution, u) \<leftarrow> generateSolvedGrid sz (Some seed) world0;
       (grid, u') \<leftarrow> removeNumbers (cloneGrid solution)
                      (int (sz * sz) - int (getCluesForDifficulty sz d)) (Some seed) world0;
       Some (solution, grid)
     }"

lemma shuffleArray_seeded_world:
  "shuffleArray xs (seededRandom seed) w
     = (case shuffleArray xs (seededRandom seed) w0 of
          None \<Rightarrow> None
        | Some (ys, rng, u) \<Rightarrow> Some (ys, rng, w))"
  unfolding shuffleArray_def seededRandom_def by (rule shuffleFrom_seeded_world)

lemma generateSolvedGrid_world:
  "generateSolvedGrid n (Some seed) w
     = (case generateSolvedGrid n (Some seed) w0 of None \<Rightarrow> None | Some (g, u) \<Rightarrow> Some (g, w))"
proof (cases "shuffleArray [1..int n] (seededRandom seed) w0")
  case None
  with shuffleArray_seeded_world [of "[1..int n]" seed w w0]
  have "shuffleArray [1..int n] (seededRandom seed) w = None" by simp
  with None show ?thesis by (simp add: generateSolvedGrid_def)
next
  case (Some a)
  obtain ys rng u where a: "a = (ys, rng, u)" by (cases a)
  with Some shuffleArray_seeded_world [of "[1..int n]" seed w w0]
  have "shuffleArray [1..int n] (seededRandom seed) w = Some (ys, rng, w)" by simp
  with Some a show ?thesis
    by (simp add: generateSolvedGrid_def Let_def case_prod_beta split: Option.bind_splits)
qed

lemma removeNumbers_world:
  "removeNumbers g count (Some seed) w
     = (case removeNumbers g count (Some seed) w0 of None \<Rightarrow> None | Some (g', u) \<Rightarrow> Some (g', w))"
proof (cases "shuffleArray (allPositions (length g)) (seededRandom (seed * 2)) w0")
  case None
  with shuffleArray_seeded_world [of "allPositions (length g)" "seed * 2" w w0]
  have "shuffleArray (allPositions (length g)) (seededRandom (seed * 2)) w = None" by simp
  with None show ?thesis by (simp add: removeNumbers_def)
next
  case (Some a)
  obtain ys rng u where a: "a = (ys, rng, u)" by (cases a)
  with Some shuffleArray_seeded_world [of "allPositions (length g)" "seed * 2" w w0]
  have "shuffleArray (allPositions (length g)) (seededRandom (seed * 2)) w = Some (ys, rng, w)"
    by simp
  with Some a show ?thesis
    by (simp add: removeNumbers_def Let_def split: Option.bind_splits)
qed

text \<open>The puzzle a seeded call returns when the uniqueness check passes.\<close>

definition puzzleOf ::
  "nat \<Rightarrow> Difficulty \<Rightarrow> int \<Rightarrow> grid \<Rightarrow> grid \<Rightarrow> world \<Rightarrow> Puzzle \<times> world" where
  "puzzleOf sz d seed solution grid w =
     (case generatePuzzleId sz d (Some seed) w of (ident, w3) \<Rightarrow>
        (case nextDateNow w3 of (now, w4) \<Rightarrow>
           (\<lparr> puzzleId = ident, puzzleGrid = grid, puzzleSolution = solution,
              puzzleDifficulty = d, puzzleGridSize = sz, puzzleCreatedAt = now \<rparr>, w4)))"

lemma puzzleOf_grids [simp]:
  "puzzleGrid (fst (puzzleOf sz d seed solution grid w)) = grid"
  "puzzleSolution (fst (puzzleOf sz d seed solution grid w)) = solution"
  by (simp_all add: puzzleOf_def split: prod.splits)

lemma generatePuzzle_seeded:
  "generatePuzzle sz d (Some seed) w =
     (case attempt sz d seed of
        None \<Rightarrow> None
      | Some (solution, grid) \<Rightarrow>
          (case hasUniqueSolution grid of
             None \<Rightarrow> None
           | Some unique \<Rightarrow>
               if \<not> unique then
                 (if seed \<noteq> 0 then generatePuzzle sz d (Some (seed + 1)) w
                  else generatePuzzle sz d (Some (fst (nextDateNow w))) (snd (nextDateNow w)))
               else Some (puzzleOf sz d seed solution grid w)))"
proof (cases "generateSolvedGrid sz (Some seed) world0")
  case None
  with generateSolvedGrid_world [of sz seed w world0]
  have "generateSolvedGrid sz (Some seed) w = None" by simp
  with None show ?thesis
    by (subst generatePuzzle.simps) (simp add: attempt_def)
next
  case (Some a)
  obtain sol u where a: "a = (sol, u)" by (cases a)
  with Some generateSolvedGrid_world [of sz seed w world0]
  have gs: "generateSolvedGrid sz (Some seed) w = Some (sol, w)" by simp
  let ?count = "int (sz * sz) - int (getCluesForDifficulty sz d)"
  show ?thesis
  proof (cases "removeNumbers (cloneGrid sol) ?count (Some seed) world0")
    case None
    with removeNumbers_world [of "cloneGrid sol" ?count seed w world0]
    have "removeNumbers (cloneGrid sol) ?count (Some seed) w = None" by simp
    with None Some a gs show ?thesis
      by (subst generatePuzzle.simps) (simp add: attempt_def)
  next
    case rm: (Some b)
    obtain g u' where b: "b = (g, u')" by (cases b)
    with rm removeNumbers_world [of "cloneGrid sol" ?count seed w world0]
    have rn: "removeNumbers (cloneGrid sol) ?count (Some seed) w = Some (g, w)" by simp
    from Some a rm b have att: "attempt sz d seed = Some (sol, g)"
      by (simp add: attempt_def)
    from att gs rn show ?thesis
      by (subst generatePuzzle.simps)
         (simp add: Let_def puzzleOf_def case_prod_beta split: option.splits)
  qed
qed

lemma length_fill_row:
  "length (fold (\<lambda>c g. setCell g r c (f c)) cs g) = length g"
  by (induction cs arbitrary: g) (simp_all add: length_setCell)

lemma generateSolvedGrid_length:
  assumes "generateSolvedGrid n seed w = Some (sol, w')"
  shows "length sol = n"
proof -
  from assms obtain g0 b where s: "solve g0 = Some (b, sol)"
    and g0: "length g0 = length (createEmptyGrid n)"
    by (auto simp: generateSolvedGrid_def Let_def bind_eq_Some_conv length_fill_row)
  from solve_shape(1) [OF s] have "length sol = length g0" by (metis length_map)
  with g0 show ?thesis by (simp add: createEmptyGrid_def)
qed

lemma attempt_nonneg:
  assumes "supportedSize sz" and "0 \<le> seed"
  shows "\<exists>sol g. attempt sz d seed = Some (sol, g) \<and> hasUniqueSolution g = Some True
           \<and> (\<exists>r c. readCell g r c = Null)"
proof -
  from generateSolvedGrid_seeded [OF assms, of world0] obtain sol where
    gs: "generateSolvedGrid sz (Some seed) world0 = Some (sol, world0)"
    and sol: "wfGrid sol" "validGrid sol" "completeGrid sol" by blast
  from sol(1) have l: "supportedSize (length sol)" by (simp add: wfGrid_def)
  from gs have "length sol = sz" by (rule generateSolvedGrid_length)
  have cnt: "1 \<le> int (sz * sz) - int (getCluesForDifficulty sz d)"
    by (rule clues_less_cells [OF assms(1)])
  from \<open>length sol = sz\<close> l have l: "supportedSize (length sol)" by simp
  from removeNumbers_seeded [OF l sol assms(2) cnt, of world0] obtain g where
    "removeNumbers sol (int (sz * sz) - int (getCluesForDifficulty sz d)) (Some seed) world0
       = Some (g, world0)"
    and g: "hasUniqueSolution g = Some True" "\<exists>r c. readCell g r c = Null" by blast
  with gs have "attempt sz d seed = Some (sol, g)" by (simp add: attempt_def)
  with g show ?thesis by blast
qed

lemma generatePuzzle_nonneg:
  assumes "supportedSize sz" and "0 \<le> seed"
  shows "\<exists>sol g. attempt sz d seed = Some (sol, g) \<and> hasUniqueSolution g = Some True
           \<and> (\<exists>r c. readCell g r c = Null)
           \<and> (\<forall>w. generatePuzzle sz d (Some seed) w = Some (puzzleOf sz d seed sol g w))"
proof -
  from attempt_nonneg [OF assms, of d] obtain sol g where
    a: "attempt sz d seed = Some (sol, g)" "hasUniqueSolution g = Some True"
      "\<exists>r c. readCell g r c = Null" by blast
  then have "generatePuzzle sz d (Some seed) w = Some (puzzleOf sz d seed sol g w)" for w
    by (simp add: generatePuzzle_seeded)
  with a show ?thesis by blast
qed

text \<open>With a seed that is not negative, \<open>generatePuzzle\<close> returns at its first attempt
  (the retry is never taken): the grid of the puzzle has exactly one solution and an empty
  cell.\<close>

lemma generatePuzzle_nonneg_seed:
  assumes "supportedSize sz" and "0 \<le> seed"
  shows "\<exists>p w'. generatePuzzle sz d (Some seed) w = Some (p, w')
           \<and> countSolutions (puzzleGrid p) 2 = Some 1
           \<and> \<not> isGridComplete (puzzleGrid p)"
proof -
  from generatePuzzle_nonneg [OF assms, of d] obtain sol g where
    u: "hasUniqueSolution g = Some True" and e: "\<exists>r c. readCell g r c = Null"
    and p: "generatePuzzle sz d (Some seed) w = Some (puzzleOf sz d seed sol g w)" by blast
  from u have "countSolutions g 2 = Some 1"
    by (auto simp: hasUniqueSolution_countSolutions)
  moreover from e have "\<not> isGridComplete g" by (auto dest: readCell_Null_incomplete)
  ultimately show ?thesis using p puzzleOf_grids [of sz d seed sol g w]
    by (cases "puzzleOf sz d seed sol g w") auto
qed

text \<open>C1 fails on the code for negative seeds: with the seed \<open>-6\<close> and the size 4 the
  seeded source yields negative numbers, the shuffles index outside their arrays, and the
  call returns no puzzle, whatever the tier and the world. With a seed that is not negative
  the claim holds (\<open>generatePuzzle_nonneg_seed\<close>).\<close>

theorem generatePuzzle_negative_seed:
  "generatePuzzle 4 d (Some (- 6)) w = None"
proof -
  have "generateSolvedGrid 4 (Some (- 6)) world0 = None"
    by (simp add: generateSolvedGrid_def seededRandom_def jsRem_def shuffleArray_def Let_def
        upto.simps)
  then have "attempt 4 d (- 6) = None" by (simp add: attempt_def)
  then show ?thesis by (simp add: generatePuzzle_seeded)
qed


lemma grids_puzzleOf [simp]:
  "(case puzzleOf sz d seed sol g w of (p, u) \<Rightarrow> (puzzleGrid p, puzzleSolution p)) = (g, sol)"
  using puzzleOf_grids [of sz d seed sol g w]
  by (cases "puzzleOf sz d seed sol g w") auto




end
